theory Spec2Isabelle
  imports Complex_Main "HOL-Library.AList" "HOL-Library.Product_Lexorder" "HOL-Library.Extended_Nat"
begin

section \<open>Errors raised by the Python code\<close>

datatype error = ValueError | AssertionError | AttributeError | IndexError | OverflowError | TypeError

section \<open>NameToIDMap (LO\_gate\_cut\_optimizer/circuit\_interface.py)\<close>

text \<open>
  The class keeps two Python dictionaries and a counter.  A dictionary is an association
  list in insertion order: \<open>d[k] = v\<close> is \<^const>\<open>AList.update\<close> (replace in place, or
  append), \<open>k in d\<close> is membership in the keys, \<open>d[k]\<close> is \<^const>\<open>map_of\<close>.  IDs are
  natural numbers, as the class's docstring says.
\<close>

record 'n NameToIDMap =
  next_ID :: nat
  item_dict :: "('n \<times> nat) list"
  ID_dict :: "(nat \<times> 'n) list"

definition has_key :: "('k \<times> 'v) list \<Rightarrow> 'k \<Rightarrow> bool" where
  "has_key d k = (k \<in> fst ` set d)"

text \<open>The loop \<^verbatim>\<open>while self.next_ID in self.ID_dict: self.next_ID += 1\<close>.\<close>

function skip_used :: "(nat \<times> 'n) list \<Rightarrow> nat \<Rightarrow> nat" where
  "skip_used d n = (if has_key d n then skip_used d (Suc n) else n)"
  by pat_completeness auto
termination
proof (relation "measure (\<lambda>(d, n). Suc (Max (insert 0 (fst ` set d))) - n)")
  show "wf (measure (\<lambda>(d :: (nat \<times> 'n) list, n). Suc (Max (insert 0 (fst ` set d))) - n))"
    by simp
next
  fix d :: "(nat \<times> 'n) list" and n
  assume "has_key d n"
  then have "n \<le> Max (insert 0 (fst ` set d))"
    by (simp add: has_key_def)
  then show "((d, Suc n), (d, n)) \<in> measure (\<lambda>(d, n). Suc (Max (insert 0 (fst ` set d))) - n)"
    by simp
qed

declare skip_used.simps [simp del]

definition getID :: "'n NameToIDMap \<Rightarrow> 'n \<Rightarrow> 'n NameToIDMap \<times> nat" where
  "getID m item_name =
     (if \<not> has_key (item_dict m) item_name then
        (let n = skip_used (ID_dict m) (next_ID m);
             m' = m\<lparr>item_dict := AList.update item_name n (item_dict m),
                     ID_dict := AList.update n item_name (ID_dict m),
                     next_ID := Suc n\<rparr>
         in (m', the (map_of (item_dict m') item_name)))
      else (m, the (map_of (item_dict m) item_name)))"

definition defineID :: "'n NameToIDMap \<Rightarrow> nat \<Rightarrow> 'n \<Rightarrow> error + 'n NameToIDMap" where
  "defineID m item_ID item_name =
     (if has_key (ID_dict m) item_ID then Inl AssertionError
      else if has_key (item_dict m) item_name then Inl AssertionError
      else Inr (m\<lparr>item_dict := AList.update item_name item_ID (item_dict m),
                   ID_dict := AList.update item_ID item_name (ID_dict m)\<rparr>))"

definition getName :: "'n NameToIDMap \<Rightarrow> nat \<Rightarrow> 'n option" where
  "getName m item_ID = (if \<not> has_key (ID_dict m) item_ID then None else map_of (ID_dict m) item_ID)"

definition getNumItems :: "'n NameToIDMap \<Rightarrow> nat" where
  "getNumItems m = length (item_dict m)"

definition getArraySizeNeeded :: "'n NameToIDMap \<Rightarrow> nat" where
  "getArraySizeNeeded m = (if getNumItems m = 0 then 0 else 1 + Max (fst ` set (ID_dict m)))"

definition getItems :: "'n NameToIDMap \<Rightarrow> 'n list" where
  "getItems m = map fst (item_dict m)"

definition getIDs :: "'n NameToIDMap \<Rightarrow> nat list" where
  "getIDs m = map fst (ID_dict m)"

definition NameToIDMap_init :: "'n list \<Rightarrow> 'n NameToIDMap" where
  "NameToIDMap_init init_names =
     fold (\<lambda>name m. fst (getID m name)) init_names \<lparr>next_ID = 0, item_dict = [], ID_dict = []\<rparr>"

text \<open>
  The maps a program can hold: built by the constructor, then changed by \<open>getID\<close> and by
  the calls of \<open>defineID\<close> whose assertions pass.
\<close>

inductive reachable :: "'n NameToIDMap \<Rightarrow> bool" where
  r_init: "reachable (NameToIDMap_init init_names)"
| r_getID: "reachable m \<Longrightarrow> reachable (fst (getID m x))"
| r_defineID: "reachable m \<Longrightarrow> defineID m i x = Inr m' \<Longrightarrow> reachable m'"

definition consistent :: "'n NameToIDMap \<Rightarrow> bool" where
  "consistent m \<longleftrightarrow>
     (\<forall>x i. map_of (item_dict m) x = Some i \<longleftrightarrow> map_of (ID_dict m) i = Some x)"

section \<open>The priority queue (best\_first\_search.py, BestFirstPriorityQueue)\<close>

text \<open>
  A queue entry is the tuple \<open>(cost, -depth, random_num, seq_count, state)\<close> of the source.
  Python compares such tuples lexicographically; no two entries share a sequence count, so
  the comparison is decided by the first four components, which form the key.
\<close>

type_synonym ('s, 'c, 'r) entry = "'c \<times> int \<times> 'r \<times> nat \<times> 's"

definition entry_key :: "('s, 'c, 'r) entry \<Rightarrow> 'c \<times> int \<times> 'r \<times> nat" where
  "entry_key = (\<lambda>(cost, neg_depth, rnd, seq, state). (cost, neg_depth, rnd, seq))"

text \<open>
  \<open>heapq\<close> belongs to the Python library.  Its contract is modelled, not its array layout:
  \<open>heappush\<close> adds an entry, \<open>heappop\<close> removes and returns the least one.
\<close>

definition heappush :: "('s, 'c::linorder, 'r::linorder) entry list \<Rightarrow> ('s, 'c, 'r) entry
    \<Rightarrow> ('s, 'c, 'r) entry list" where
  "heappush h x = h @ [x]"

definition heappop :: "('s, 'c::linorder, 'r::linorder) entry list
    \<Rightarrow> ('s, 'c, 'r) entry \<times> ('s, 'c, 'r) entry list" where
  "heappop h = (let best = arg_min_list entry_key h in (best, remove1 best h))"

text \<open>
  \<open>numpy.random.default_rng(seed)\<close> is a library call too.  With an integer seed the
  generator's stream of numbers is a function of the seed (\<open>rng seed\<close>, the \<open>k\<close>-th draw
  being \<open>rng seed k\<close>); with \<open>None\<close> numpy seeds the generator from fresh operating-system
  entropy, which is the parameter \<open>entropy\<close> of a run.
\<close>

definition default_rng :: "(nat \<Rightarrow> nat \<Rightarrow> 'r) \<Rightarrow> nat \<Rightarrow> nat option \<Rightarrow> nat \<Rightarrow> 'r" where
  "default_rng rng entropy seed = (case seed of None \<Rightarrow> rng entropy | Some s \<Rightarrow> rng s)"

record ('s, 'c, 'r) BestFirstPriorityQueue =
  random_gen :: "nat \<Rightarrow> 'r"
  drawn :: nat
  unique :: nat
  pqueue :: "('s, 'c, 'r) entry list"

definition BestFirstPriorityQueue_init ::
    "(nat \<Rightarrow> nat \<Rightarrow> 'r) \<Rightarrow> nat \<Rightarrow> nat option \<Rightarrow> ('s, 'c, 'r) BestFirstPriorityQueue" where
  "BestFirstPriorityQueue_init rng entropy seed =
     \<lparr>random_gen = default_rng rng entropy seed, drawn = 0, unique = 0, pqueue = []\<rparr>"

definition pq_put :: "('s, 'c::linorder, 'r::linorder) BestFirstPriorityQueue \<Rightarrow> 's \<Rightarrow> int \<Rightarrow> 'c
    \<Rightarrow> ('s, 'c, 'r) BestFirstPriorityQueue" where
  "pq_put q state depth cost =
     q\<lparr>pqueue := heappush (pqueue q) (cost, - depth, random_gen q (drawn q), unique q, state),
       drawn := Suc (drawn q),
       unique := Suc (unique q)\<rparr>"

definition pq_qsize :: "('s, 'c, 'r) BestFirstPriorityQueue \<Rightarrow> nat" where
  "pq_qsize q = length (pqueue q)"

definition pq_get :: "('s, 'c::linorder, 'r::linorder) BestFirstPriorityQueue
    \<Rightarrow> ('s \<times> int \<times> 'c) option \<times> ('s, 'c, 'r) BestFirstPriorityQueue" where
  "pq_get q =
     (if pq_qsize q = 0 then (None, q)
      else (case heappop (pqueue q) of
              ((cost, neg_depth, rnd, seq, state), rest) \<Rightarrow>
                (Some (state, - neg_depth, cost), q\<lparr>pqueue := rest\<rparr>)))"

definition pq_clear :: "('s, 'c, 'r) BestFirstPriorityQueue \<Rightarrow> ('s, 'c, 'r) BestFirstPriorityQueue" where
  "pq_clear q = q\<lparr>pqueue := []\<rparr>"

section \<open>The search engine (best\_first\_search.py, BestFirstSearch)\<close>

text \<open>
  The five search-space functions are closures over the \<open>*args\<close> that the engine only
  passes through.  \<open>next_state_func\<close> may raise (the cut optimizer's does, on a gate it
  does not support), so it returns a sum.  \<open>upperbound_cost_func\<close> and
  \<open>mincost_bound_func\<close> may be \<open>None\<close>; the latter returns a bound or \<open>None\<close>.
\<close>

record ('s, 'c) SearchFunctions =
  sf_cost_func :: "'s \<Rightarrow> 'c"
  sf_upperbound_cost_func :: "('s \<Rightarrow> 'c) option"
  sf_next_state_func :: "'s \<Rightarrow> error + 's list"
  sf_goal_state_func :: "'s \<Rightarrow> bool"
  sf_mincost_bound_func :: "'c option option"

text \<open>
  Modelled from the spec: the optimization settings (\<open>optimization_settings.py\<close> is not
  among the sources) are the record of section 4.C, with the three accessors the sources call.
\<close>

record OptimizationSettings =
  get_max_gamma :: "real option"
  get_max_backjumps :: "nat option"
  get_seed :: "nat option"

text \<open>
  What one pop did, kept as a history of the run (newest first).  The history is not a
  field of the Python object; nothing in the engine reads it.
\<close>

datatype event = PassStart | Visit int | Reject int

datatype ('s, 'c) outcome = Returned "('s \<times> 'c) option" | Raised error

record ('s, 'c, 'r) BestFirstSearch =
  seed :: "nat option"
  cost_func :: "'s \<Rightarrow> 'c"
  next_state_func :: "'s \<Rightarrow> error + 's list"
  goal_state_func :: "'s \<Rightarrow> bool"
  upperbound_cost_func :: "('s \<Rightarrow> 'c) option"
  mincost_bound_func :: "'c option option"
  stop_at_first_min :: bool
  max_backjumps :: "nat option"
  pq :: "('s, 'c, 'r) BestFirstPriorityQueue"
  upperbound_cost :: "'c option"
  mincost_bound :: "'c option"
  min_reached :: bool
  num_states_visited :: nat
  num_next_states :: nat
  num_enqueues :: nat
  num_backjumps :: nat
  penultimate_stats :: "(nat \<times> nat \<times> nat \<times> nat) option"
  events :: "event list"

definition BestFirstSearch_init :: "(nat \<Rightarrow> nat \<Rightarrow> 'r) \<Rightarrow> nat \<Rightarrow> OptimizationSettings
    \<Rightarrow> ('s, 'c) SearchFunctions \<Rightarrow> bool \<Rightarrow> ('s, 'c, 'r) BestFirstSearch" where
  "BestFirstSearch_init rng entropy optimization_settings search_functions stop =
     \<lparr>seed = get_seed optimization_settings,
      cost_func = sf_cost_func search_functions,
      next_state_func = sf_next_state_func search_functions,
      goal_state_func = sf_goal_state_func search_functions,
      upperbound_cost_func = sf_upperbound_cost_func search_functions,
      mincost_bound_func = sf_mincost_bound_func search_functions,
      stop_at_first_min = stop,
      max_backjumps = get_max_backjumps optimization_settings,
      pq = BestFirstPriorityQueue_init rng entropy (get_seed optimization_settings),
      upperbound_cost = None,
      mincost_bound = None,
      min_reached = False,
      num_states_visited = 0,
      num_next_states = 0,
      num_enqueues = 0,
      num_backjumps = 0,
      penultimate_stats = None,
      events = []\<rparr>"

definition get_stats :: "('s, 'c, 'r) BestFirstSearch \<Rightarrow> nat \<times> nat \<times> nat \<times> nat" where
  "get_stats e = (num_states_visited e, num_next_states e, num_enqueues e, num_backjumps e)"

definition minimum_reached :: "('s, 'c, 'r) BestFirstSearch \<Rightarrow> bool" where
  "minimum_reached e = min_reached e"

definition get_upperbound_cost :: "('s, 'c, 'r) BestFirstSearch \<Rightarrow> 'c option" where
  "get_upperbound_cost e = upperbound_cost e"

definition update_upperbound_cost :: "('s, 'c::linorder, 'r) BestFirstSearch \<Rightarrow> 'c option
    \<Rightarrow> ('s, 'c, 'r) BestFirstSearch" where
  "update_upperbound_cost e cost_bound =
     (case cost_bound of
        None \<Rightarrow> e
      | Some b \<Rightarrow>
          (if upperbound_cost e = None \<or> b < the (upperbound_cost e)
           then e\<lparr>upperbound_cost := Some b\<rparr> else e))"

definition update_upperbound_goal_state :: "('s, 'c::linorder, 'r) BestFirstSearch \<Rightarrow> 's
    \<Rightarrow> ('s, 'c, 'r) BestFirstSearch" where
  "update_upperbound_goal_state e goal_state =
     (let bound = (case upperbound_cost_func e of
                     Some f \<Rightarrow> f goal_state
                   | None \<Rightarrow> cost_func e goal_state)
      in if upperbound_cost e = None \<or> bound < the (upperbound_cost e)
         then e\<lparr>upperbound_cost := Some bound\<rparr> else e)"

text \<open>One round of the \<open>for\<close> loop of \<open>BestFirstSearch.put\<close>, then the method.\<close>

definition put_one :: "int \<Rightarrow> 's \<Rightarrow> ('s, 'c::linorder, 'r::linorder) BestFirstSearch
    \<Rightarrow> ('s, 'c, 'r) BestFirstSearch" where
  "put_one depth state e =
     (let cost = cost_func e state
      in if upperbound_cost e = None \<or> cost \<le> the (upperbound_cost e)
         then e\<lparr>pq := pq_put (pq e) state depth cost, num_enqueues := num_enqueues e + 1\<rparr>
         else e)"

definition put :: "('s, 'c::linorder, 'r::linorder) BestFirstSearch \<Rightarrow> 's list \<Rightarrow> int
    \<Rightarrow> ('s, 'c, 'r) BestFirstSearch" where
  "put e state_list depth =
     fold (put_one depth) state_list
       (e\<lparr>num_next_states := num_next_states e + length state_list\<rparr>)"

definition update_minimum_reached :: "('s, 'c::linorder, 'r) BestFirstSearch \<Rightarrow> 'c option
    \<Rightarrow> ('s, 'c, 'r) BestFirstSearch" where
  "update_minimum_reached e min_cost =
     (if min_cost = None \<or> (upperbound_cost e \<noteq> None \<and> the (upperbound_cost e) \<le> the min_cost)
      then e\<lparr>min_reached := True\<rparr> else e)"

definition cost_bounds_exceeded :: "('s, 'c::linorder, 'r) BestFirstSearch \<Rightarrow> 'c option \<Rightarrow> bool" where
  "cost_bounds_exceeded e cost \<longleftrightarrow>
     cost \<noteq> None \<and>
     ((mincost_bound e \<noteq> None \<and> the cost > the (mincost_bound e)) \<or>
      (upperbound_cost e \<noteq> None \<and> the cost > the (upperbound_cost e)))"

definition initialize :: "('s, 'c::linorder, 'r::linorder) BestFirstSearch \<Rightarrow> 's list
    \<Rightarrow> ('s, 'c, 'r) BestFirstSearch" where
  "initialize e initial_state_list =
     put (e\<lparr>pq := pq_clear (pq e),
             upperbound_cost := None,
             mincost_bound := None,
             min_reached := False,
             num_states_visited := 0,
             num_next_states := 0,
             num_enqueues := 0,
             num_backjumps := 0,
             penultimate_stats := Some (0, 0, 0, 0),
             events := []\<rparr>) initial_state_list 0"

text \<open>The guard of the \<open>while\<close> loop of \<open>optimization_pass\<close>.\<close>

definition loop_guard :: "('s, 'c, 'r) BestFirstSearch \<Rightarrow> bool" where
  "loop_guard e \<longleftrightarrow>
     pq_qsize (pq e) > 0 \<and>
     (\<not> stop_at_first_min e \<or> \<not> min_reached e) \<and>
     (max_backjumps e = None \<or> num_backjumps e < the (max_backjumps e))"

text \<open>The two statements after the loop.\<close>

definition loop_exit :: "('s, 'c, 'r) BestFirstSearch \<Rightarrow> ('s, 'c, 'r) BestFirstSearch \<times> ('s, 'c) outcome" where
  "loop_exit e = ((if pq_qsize (pq e) = 0 then e\<lparr>min_reached := True\<rparr> else e), Returned None)"

text \<open>
  The bookkeeping of a pop that passed the cost bounds: \<open>num_states_visited\<close>, the
  backjump test against \<open>prev_depth\<close> (the local variable of the source, \<open>None\<close> at the
  start of every pass), and the history entry.
\<close>

definition account_visit :: "('s, 'c, 'r) BestFirstSearch \<Rightarrow> int \<Rightarrow> int option
    \<Rightarrow> ('s, 'c, 'r) BestFirstSearch" where
  "account_visit e1 depth prev_depth =
     (let e2 = e1\<lparr>num_states_visited := num_states_visited e1 + 1\<rparr>;
          e3 = (if prev_depth \<noteq> None \<and> depth \<le> the prev_depth
                then e2\<lparr>num_backjumps := num_backjumps e2 + 1\<rparr> else e2)
      in e3\<lparr>events := Visit depth # events e3\<rparr>)"

text \<open>The three statements before \<open>return state, cost\<close>.\<close>

definition goal_return :: "('s, 'c::linorder, 'r) BestFirstSearch \<Rightarrow> 's \<Rightarrow> 'c
    \<Rightarrow> ('s, 'c, 'r) BestFirstSearch" where
  "goal_return e4 state cost =
     (let e5 = e4\<lparr>penultimate_stats := Some (get_stats e4)\<rparr>;
          e6 = update_upperbound_goal_state e5 state
      in update_minimum_reached e6 (Some cost))"

text \<open>
  One round of the \<open>while\<close> loop of \<open>optimization_pass\<close>: the pop, the two cost checks,
  the bookkeeping, the goal test, and the generation and enqueueing of the successors.
  A round either returns from the method (\<open>Return\<close>, with the engine and what is returned
  or raised) or goes back to the loop guard (\<open>Continue\<close>, with the engine and the new value
  of the local variable \<open>prev_depth\<close>).
\<close>

datatype ('s, 'c, 'r) iteration =
    Continue "('s, 'c, 'r) BestFirstSearch" "int option"
  | Return "('s, 'c, 'r) BestFirstSearch" "('s, 'c) outcome"

definition loop_body :: "('s, 'c::linorder, 'r::linorder) BestFirstSearch \<Rightarrow> int option
    \<Rightarrow> ('s, 'c, 'r) iteration" where
  "loop_body e prev_depth =
     (case pq_get (pq e) of
        (None, q) \<Rightarrow> Return (update_minimum_reached (e\<lparr>pq := q\<rparr>) None) (Returned None)
      | (Some (state, depth, cost), q) \<Rightarrow>
          (let e1 = update_minimum_reached (e\<lparr>pq := q\<rparr>) (Some cost)
           in if cost_bounds_exceeded e1 (Some cost)
              then Return (e1\<lparr>events := Reject depth # events e1\<rparr>) (Returned None)
              else
                (let e4 = account_visit e1 depth prev_depth
                 in if goal_state_func e4 state
                    then Return (goal_return e4 state cost) (Returned (Some (state, cost)))
                    else
                      (case next_state_func e4 state of
                         Inl err \<Rightarrow> Return e4 (Raised err)
                       | Inr next_state_list \<Rightarrow>
                           Continue (put e4 next_state_list (depth + 1)) (Some depth)))))"

text \<open>
  The loop may run forever (nothing bounds the successors a search-space function
  returns), so it is a partial function: \<open>None\<close> is a pass that does not return.
\<close>

partial_function (option) optimization_pass_loop ::
    "('s, 'c::linorder, 'r::linorder) BestFirstSearch \<Rightarrow> int option
     \<Rightarrow> (('s, 'c, 'r) BestFirstSearch \<times> ('s, 'c) outcome) option" where
  [code]: "optimization_pass_loop e prev_depth =
     (if loop_guard e then
        (case loop_body e prev_depth of
           Return e' r \<Rightarrow> Some (e', r)
         | Continue e' prev_depth' \<Rightarrow> optimization_pass_loop e' prev_depth')
      else Some (loop_exit e))"

text \<open>
  The first statement of \<open>optimization_pass\<close> (the refresh of \<open>mincost_bound\<close>), and
  the history entry for the start of a pass.
\<close>

definition pass_start :: "('s, 'c, 'r) BestFirstSearch \<Rightarrow> ('s, 'c, 'r) BestFirstSearch" where
  "pass_start e =
     (let e0 = (case mincost_bound_func e of
                  Some b \<Rightarrow> e\<lparr>mincost_bound := b\<rparr>
                | None \<Rightarrow> e)
      in e0\<lparr>events := PassStart # events e0\<rparr>)"

definition optimization_pass :: "('s, 'c::linorder, 'r::linorder) BestFirstSearch
    \<Rightarrow> (('s, 'c, 'r) BestFirstSearch \<times> ('s, 'c) outcome) option" where
  "optimization_pass e = optimization_pass_loop (pass_start e) None"

text \<open>\<open>n\<close> successive calls of \<open>optimization_pass\<close> on one engine, with what each returned.\<close>

fun passes :: "nat \<Rightarrow> ('s, 'c::linorder, 'r::linorder) BestFirstSearch
    \<Rightarrow> (('s, 'c, 'r) BestFirstSearch \<times> ('s, 'c) outcome list) option" where
  "passes 0 e = Some (e, [])"
| "passes (Suc n) e =
     (case optimization_pass e of
        None \<Rightarrow> None
      | Some (e1, r) \<Rightarrow>
          (case passes n e1 of
             None \<Rightarrow> None
           | Some (e2, rs) \<Rightarrow> Some (e2, r # rs)))"

text \<open>
  \<open>n\<close> rounds of the loop, each entered through the guard and ending back at it:
  \<open>iterate n e prev_depth\<close> is the engine and the value of \<open>prev_depth\<close> at the guard
  after them, and \<open>None\<close> when one of them is not entered or returns from the method.
\<close>

fun iterate :: "nat \<Rightarrow> ('s, 'c::linorder, 'r::linorder) BestFirstSearch \<Rightarrow> int option
    \<Rightarrow> (('s, 'c, 'r) BestFirstSearch \<times> int option) option" where
  "iterate 0 e prev_depth = Some (e, prev_depth)"
| "iterate (Suc n) e prev_depth =
     (if loop_guard e then
        (case loop_body e prev_depth of
           Continue e' prev_depth' \<Rightarrow> iterate n e' prev_depth'
         | Return e' r \<Rightarrow> None)
      else None)"

text \<open>
  The state that the next round pops has a cost that reaches the upper bound: the test
  of \<open>update_minimum_reached\<close> on a popped cost.
\<close>

definition bound_reached_at :: "('s, 'c::linorder, 'r::linorder) BestFirstSearch \<Rightarrow> bool" where
  "bound_reached_at e \<longleftrightarrow>
     (case fst (pq_get (pq e)) of
        None \<Rightarrow> False
      | Some (state, depth, cost) \<Rightarrow>
          (case upperbound_cost e of
             None \<Rightarrow> False
           | Some b \<Rightarrow> b \<le> cost))"

text \<open>A successor is enqueued when no upper bound is set or its cost does not exceed it.\<close>

definition within_bound :: "('s, 'c::linorder, 'r) BestFirstSearch \<Rightarrow> 's \<Rightarrow> bool" where
  "within_bound e s \<longleftrightarrow> upperbound_cost e = None \<or> cost_func e s \<le> the (upperbound_cost e)"

text \<open>
  Two ways of counting backjumps in a history (newest event first).
  \<open>same_pass_backjumps\<close> counts the visited pops whose depth is at most the depth of the
  visited pop just before them in the same pass.  \<open>lifetime_backjumps\<close> counts the pops
  (visited or rejected) whose depth is at most the depth of the pop before them, wherever
  the passes begin.
\<close>

fun same_pass_backjumps :: "event list \<Rightarrow> nat" where
  "same_pass_backjumps (Visit d2 # Visit d1 # r) =
     (if d2 \<le> d1 then 1 else 0) + same_pass_backjumps (Visit d1 # r)"
| "same_pass_backjumps (x # r) = same_pass_backjumps r"
| "same_pass_backjumps [] = 0"

fun prev_of :: "event list \<Rightarrow> int option" where
  "prev_of (Visit d # r) = Some d"
| "prev_of r = None"

fun pop_depths :: "event list \<Rightarrow> int list" where
  "pop_depths [] = []"
| "pop_depths (PassStart # r) = pop_depths r"
| "pop_depths (Visit d # r) = d # pop_depths r"
| "pop_depths (Reject d # r) = d # pop_depths r"

fun backjump_pairs :: "int list \<Rightarrow> nat" where
  "backjump_pairs (d2 # d1 # r) = (if d2 \<le> d1 then 1 else 0) + backjump_pairs (d1 # r)"
| "backjump_pairs r = 0"

definition lifetime_backjumps :: "event list \<Rightarrow> nat" where
  "lifetime_backjumps ev = backjump_pairs (pop_depths ev)"

text \<open>
  The states of an engine's life: after \<open>initialize\<close>, then after every returning call of
  \<open>optimization_pass\<close> and every update of the upper bound.
\<close>

inductive in_lifetime :: "('s, 'c::linorder, 'r::linorder) BestFirstSearch \<Rightarrow> bool" where
  l_initialize: "in_lifetime (initialize e initial_state_list)"
| l_pass: "in_lifetime e \<Longrightarrow> optimization_pass e = Some (e', r) \<Longrightarrow> in_lifetime e'"
| l_bound: "in_lifetime e \<Longrightarrow> in_lifetime (update_upperbound_cost e b)"
| l_goal_bound: "in_lifetime e \<Longrightarrow> in_lifetime (update_upperbound_goal_state e g)"


section \<open>Properties of a queue and of a search space\<close>

text \<open>
  \<open>costed\<close>: every queued entry carries the cost of its state.  \<open>above b\<close>: no queued
  entry costs less than \<open>b\<close>.  \<open>monotone_costs\<close>: no successor costs less than its parent.
\<close>

definition entry_state :: "('s, 'c, 'r) entry \<Rightarrow> 's" where
  "entry_state = (\<lambda>(cost, neg_depth, rnd, seq, state). state)"

definition costed :: "('s, 'c::linorder, 'r::linorder) BestFirstSearch \<Rightarrow> bool" where
  "costed e \<longleftrightarrow> (\<forall>x \<in> set (pqueue (pq e)). fst x = cost_func e (entry_state x))"

definition above :: "'c \<Rightarrow> ('s, 'c::linorder, 'r::linorder) BestFirstSearch \<Rightarrow> bool" where
  "above b e \<longleftrightarrow> (\<forall>x \<in> set (pqueue (pq e)). b \<le> fst x)"

definition monotone_costs :: "('s, 'c::linorder, 'r::linorder) BestFirstSearch \<Rightarrow> bool" where
  "monotone_costs e \<longleftrightarrow>
     (\<forall>s succs s'. next_state_func e s = Inr succs \<longrightarrow> s' \<in> set succs \<longrightarrow>
        cost_func e s \<le> cost_func e s')"

text \<open>
  \<open>exhausted\<close>: the loop guard fails, or every queued entry exceeds the min-cost bound that
  the next pass will use or the upper bound.  An exhausted engine returns nothing.
\<close>

definition effective_mincost :: "('s, 'c, 'r) BestFirstSearch \<Rightarrow> 'c option" where
  "effective_mincost e = (case mincost_bound_func e of Some b \<Rightarrow> b | None \<Rightarrow> mincost_bound e)"

definition exhausted :: "('s, 'c::linorder, 'r::linorder) BestFirstSearch \<Rightarrow> bool" where
  "exhausted e \<longleftrightarrow>
     \<not> loop_guard e \<or>
     (\<exists>b. (effective_mincost e = Some b \<or> upperbound_cost e = Some b) \<and>
          (\<forall>x \<in> set (pqueue (pq e)). b < fst x))"

section \<open>The driver (cut\_optimization.py, CutOptimization)\<close>

text \<open>
  The fields that \<open>optimization_pass\<close> reads.  The call
  \<open>self.search_funcs.cost_func(state, self.func_args)\<close> is made with
  \<open>state = self.greedy_goal_state\<close>, which is \<open>None\<close> when the greedy pre-pass found
  nothing; the cost functions of the repository (\<open>cut_optimization_cost_func\<close>,
  \<open>CutOptimizationCostFunc\<close>) begin with \<open>state.lower_bound_gamma()\<close>, which raises
  \<open>AttributeError\<close> on \<open>None\<close>.
\<close>

record ('s, 'c, 'r) CutOptimization =
  search_funcs :: "('s, 'c) SearchFunctions"
  greedy_goal_state :: "'s option"
  search_engine :: "('s, 'c, 'r) BestFirstSearch"
  goal_state_returned :: bool

definition cost_of_optional :: "('s \<Rightarrow> 'c) \<Rightarrow> 's option \<Rightarrow> error + 'c" where
  "cost_of_optional f state = (case state of None \<Rightarrow> Inl AttributeError | Some s \<Rightarrow> Inr (f s))"

definition CutOptimization_optimization_pass :: "('s, 'c::linorder, 'r::linorder) CutOptimization
    \<Rightarrow> (('s, 'c, 'r) CutOptimization \<times> ('s, 'c) outcome) option" where
  "CutOptimization_optimization_pass d =
     (case optimization_pass (search_engine d) of
        None \<Rightarrow> None
      | Some (eng, Raised err) \<Rightarrow> Some (d\<lparr>search_engine := eng\<rparr>, Raised err)
      | Some (eng, Returned res) \<Rightarrow>
          (let d1 = d\<lparr>search_engine := eng\<rparr>
           in if res = None \<and> \<not> goal_state_returned d1
              then (case cost_of_optional (sf_cost_func (search_funcs d1)) (greedy_goal_state d1) of
                      Inl err \<Rightarrow> Some (d1, Raised err)
                    | Inr cost \<Rightarrow>
                        Some (d1\<lparr>goal_state_returned := True\<rparr>,
                              Returned (Some (the (greedy_goal_state d1), cost))))
              else Some (d1\<lparr>goal_state_returned := True\<rparr>, Returned res)))"

fun driver_passes :: "nat \<Rightarrow> ('s, 'c::linorder, 'r::linorder) CutOptimization
    \<Rightarrow> (('s, 'c, 'r) CutOptimization \<times> ('s, 'c) outcome list) option" where
  "driver_passes 0 d = Some (d, [])"
| "driver_passes (Suc n) d =
     (case CutOptimization_optimization_pass d of
        None \<Rightarrow> None
      | Some (d1, r) \<Rightarrow>
          (case driver_passes n d1 of
             None \<Rightarrow> None
           | Some (d2, rs) \<Rightarrow> Some (d2, r # rs)))"

fun returned_costs :: "('s, 'c) outcome list \<Rightarrow> 'c list" where
  "returned_costs [] = []"
| "returned_costs (Returned (Some (s, c)) # rs) = c # returned_costs rs"
| "returned_costs (r # rs) = returned_costs rs"

text \<open>
  The part of \<open>CutOptimization.__init__\<close> that builds the engine.  The greedy pre-pass
  (\<open>greedy_best_first_search\<close> of \<open>cco_utils.py\<close>) and the start state
  (\<open>DisjointSubcircuitsState\<close>) are not among the sources: the result of the one and the
  value of the other are parameters.  Modelled from the spec: \<open>select_search_engine\<close>
  returns a \<open>BestFirstSearch\<close> over the settings and search functions, here with
  \<open>stop_at_first_min = False\<close>.
\<close>

definition CutOptimization_init :: "(nat \<Rightarrow> nat \<Rightarrow> 'r) \<Rightarrow> nat \<Rightarrow> OptimizationSettings
    \<Rightarrow> ('s, 'c::linorder) SearchFunctions \<Rightarrow> 's option \<Rightarrow> 's
    \<Rightarrow> ('s, 'c, 'r::linorder) CutOptimization" where
  "CutOptimization_init rng entropy settings funcs greedy start_state =
     (let sq = initialize (BestFirstSearch_init rng entropy settings funcs False) [start_state];
          sq' = (case greedy of
                   Some g \<Rightarrow> update_upperbound_goal_state sq g
                 | None \<Rightarrow> sq)
      in \<lparr>search_funcs = funcs, greedy_goal_state = greedy, search_engine = sq',
          goal_state_returned = False\<rparr>)"

section \<open>The next-state functions and the wire-cut cap (cut\_optimization.py, both versions)\<close>





















section \<open>Concrete engines\<close>

text \<open>
  A small search space over states numbered by naturals: state 0 has the successors
  1, 2 and 3, state 2 has the successor 4, no state is a goal; the costs are
  1 for state 0, 4 for state 1, 6 for state 3 and 5 otherwise.  The engine is initialised
  with state 0, given the budget \<open>m\<close> of backjumps, and told the upper bound 5 through
  \<open>update_upperbound_cost\<close>.
\<close>

definition example_funcs :: "(nat, nat) SearchFunctions" where
  "example_funcs =
     \<lparr>sf_cost_func = (\<lambda>s. if s = 0 then 1 else if s = 1 then 4 else if s = 3 then 6 else 5),
      sf_upperbound_cost_func = None,
      sf_next_state_func = (\<lambda>s. Inr (if s = 0 then [1, 2, 3] else if s = 2 then [4] else [])),
      sf_goal_state_func = (\<lambda>s. False),
      sf_mincost_bound_func = None\<rparr>"

definition budget_engine :: "nat \<Rightarrow> (nat, nat, nat) BestFirstSearch" where
  "budget_engine m =
     update_upperbound_cost
       (initialize
          (BestFirstSearch_init (\<lambda>s k. 0) 0
             \<lparr>get_max_gamma = None, get_max_backjumps = Some m, get_seed = Some 0\<rparr>
             example_funcs False)
          [0])
       (Some 5)"





definition budget_report :: "('s, 'c, 'r) BestFirstSearch \<times> ('s, 'c) outcome
    \<Rightarrow> ('s, 'c) outcome \<times> nat \<times> nat \<times> bool" where
  "budget_report x = (snd x, num_backjumps (fst x), pq_qsize (pq (fst x)), minimum_reached (fst x))"

text \<open>
  Two goal states of equal cost, both pushed at depth 0, so that only the random number
  orders them.  The generator \<open>tie_rng\<close> yields the stream 0, 1, ... when seeded with 0
  and the stream 1, 0, ... otherwise.
\<close>

definition tie_rng :: "nat \<Rightarrow> nat \<Rightarrow> nat" where
  "tie_rng a k = (if a = 0 then k else 1 - k)"

definition tie_funcs :: "(nat, nat) SearchFunctions" where
  "tie_funcs =
     \<lparr>sf_cost_func = (\<lambda>s. 0),
      sf_upperbound_cost_func = None,
      sf_next_state_func = (\<lambda>s. Inr []),
      sf_goal_state_func = (\<lambda>s. True),
      sf_mincost_bound_func = None\<rparr>"

definition tie_settings :: "nat option \<Rightarrow> OptimizationSettings" where
  "tie_settings sd = \<lparr>get_max_gamma = None, get_max_backjumps = None, get_seed = sd\<rparr>"

definition tie_engine :: "nat \<Rightarrow> nat option \<Rightarrow> (nat, nat, nat) BestFirstSearch" where
  "tie_engine entropy sd =
     initialize (BestFirstSearch_init tie_rng entropy (tie_settings sd) tie_funcs False) [0, 1]"



text \<open>
  A generator whose stream is 0, 1, 3, 2, 1, 0, 0, ... for every seed, and an engine built
  on it, not yet initialised.
\<close>

definition flip_rng :: "nat \<Rightarrow> nat \<Rightarrow> nat" where
  "flip_rng a k = (if k < 2 then k else 5 - k)"

definition flip_engine :: "(nat, nat, nat) BestFirstSearch" where
  "flip_engine = BestFirstSearch_init flip_rng 0 (tie_settings (Some 0)) tie_funcs False"

definition backjump_report :: "('s, 'c, 'r) BestFirstSearch \<Rightarrow> nat \<times> nat" where
  "backjump_report e = (num_backjumps e, lifetime_backjumps (events e))"

text \<open>
  A search space whose costs are pairs (gamma, width): state 0, of cost (1, 1), has the
  successors 1, of cost (3, 1), and 2, of cost (1, 2); both are goals.  The upper bound of
  a goal is (9, 9).  The greedy pre-pass would end in state 2.
\<close>

definition pair_funcs :: "(nat, nat \<times> nat) SearchFunctions" where
  "pair_funcs =
     \<lparr>sf_cost_func = (\<lambda>s. if s = 0 then (1, 1) else if s = 1 then (3, 1) else (1, 2)),
      sf_upperbound_cost_func = Some (\<lambda>s. (9, 9)),
      sf_next_state_func = (\<lambda>s. Inr (if s = 0 then [1, 2] else [])),
      sf_goal_state_func = (\<lambda>s. s \<noteq> 0),
      sf_mincost_bound_func = None\<rparr>"

definition pair_driver :: "(nat, nat \<times> nat, nat) CutOptimization" where
  "pair_driver = CutOptimization_init (\<lambda>s k. 0) 0 (tie_settings (Some 0)) pair_funcs (Some 2) 0"

text \<open>
  A search space with one state, which is no goal and has no successor: the greedy
  pre-pass finds nothing (\<open>None\<close>), and so does the engine.
\<close>

definition dead_end_funcs :: "(nat, nat) SearchFunctions" where
  "dead_end_funcs =
     \<lparr>sf_cost_func = (\<lambda>s. 0),
      sf_upperbound_cost_func = None,
      sf_next_state_func = (\<lambda>s. Inr []),
      sf_goal_state_func = (\<lambda>s. False),
      sf_mincost_bound_func = None\<rparr>"

definition dead_end_driver :: "(nat, nat, nat) CutOptimization" where
  "dead_end_driver = CutOptimization_init (\<lambda>s k. 0) 0 (tie_settings (Some 0)) dead_end_funcs None 0"

subsection \<open>Facts about NameToIDMap\<close>

lemma has_key_map_of: "has_key d k \<longleftrightarrow> map_of d k \<noteq> None"
  by (simp add: has_key_def map_of_eq_None_iff)

lemma skip_used_free: "\<not> has_key d (skip_used d n)"
  by (induction d n rule: skip_used.induct) (subst skip_used.simps, simp)

lemma consistent_empty: "consistent \<lparr>next_ID = 0, item_dict = [], ID_dict = []\<rparr>"
  by (simp add: consistent_def)

lemma consistent_insert:
  assumes "consistent m" and "\<not> has_key (item_dict m) x" and "\<not> has_key (ID_dict m) i"
  shows "consistent (m\<lparr>item_dict := AList.update x i (item_dict m),
                        ID_dict := AList.update i x (ID_dict m), next_ID := k\<rparr>)"
  using assms
  by (auto simp: consistent_def has_key_map_of update_conv')

lemma consistent_getID: "consistent m \<Longrightarrow> consistent (fst (getID m x))"
  using consistent_insert [of m x "skip_used (ID_dict m) (next_ID m)"]
  by (simp add: getID_def Let_def skip_used_free)

lemma consistent_defineID: "consistent m \<Longrightarrow> defineID m i x = Inr m' \<Longrightarrow> consistent m'"
  using consistent_insert [of m x i "next_ID m"]
  by (auto simp: defineID_def split: if_splits)

lemma consistent_fold_getID:
  "consistent m \<Longrightarrow> consistent (fold (\<lambda>name m. fst (getID m name)) xs m)"
  by (induction xs arbitrary: m) (simp_all add: consistent_getID)

lemma reachable_consistent: "reachable m \<Longrightarrow> consistent m"
proof (induction rule: reachable.induct)
  case (r_init init_names)
  show ?case
    unfolding NameToIDMap_init_def by (rule consistent_fold_getID [OF consistent_empty])
next
  case (r_getID m x)
  then show ?case by (simp add: consistent_getID)
next
  case (r_defineID m i x m')
  then show ?case by (simp add: consistent_defineID)
qed

lemma getID_registered: "has_key (item_dict (fst (getID m x))) x"
  by (simp add: getID_def Let_def has_key_def dom_update)

lemma getID_again: "has_key (item_dict m) x \<Longrightarrow> getID m x = (m, the (map_of (item_dict m) x))"
  by (simp add: getID_def)

lemma getID_lookup: "map_of (item_dict (fst (getID m x))) x = Some (snd (getID m x))"
  by (auto simp: getID_def Let_def update_conv' has_key_map_of)

lemma getID_keeps: "map_of (item_dict m) y = Some j \<Longrightarrow> map_of (item_dict (fst (getID m x))) y = Some j"
  by (auto simp: getID_def Let_def update_conv' has_key_map_of)


text \<open>
  C10.  In every map the class's operations can build (also with IDs pre-assigned through
  \<open>defineID\<close>): a second \<open>getID\<close> of the same name returns the same ID and leaves the
  map as it is, \<open>getName\<close> of that ID is the name, and another name gets another ID
  without disturbing the first.
\<close>

theorem getID_idempotent_injective:
  assumes "reachable m"
  shows "case getID m x of (m1, i) \<Rightarrow>
           getID m1 x = (m1, i) \<and> getName m1 i = Some x \<and>
           (\<forall>y. y \<noteq> x \<longrightarrow>
              (case getID m1 y of (m2, j) \<Rightarrow>
                 j \<noteq> i \<and> getID m2 x = (m2, i) \<and> getName m2 j = Some y \<and> getName m2 i = Some x))"
proof -
  obtain m1 i where g1: "getID m x = (m1, i)" by (cases "getID m x")
  have r1: "reachable m1" using r_getID [OF assms, of x] g1 by simp
  have c1: "consistent m1" by (rule reachable_consistent [OF r1])
  have l1: "map_of (item_dict m1) x = Some i" using getID_lookup [of m x] g1 by simp
  have k1: "has_key (item_dict m1) x" using getID_registered [of m x] g1 by simp
  have again: "getID m1 x = (m1, i)" using getID_again [OF k1] l1 by simp
  have name1: "getName m1 i = Some x"
    using c1 l1 by (auto simp: consistent_def getName_def has_key_map_of)
  have other: "case getID m1 y of (m2, j) \<Rightarrow>
                 j \<noteq> i \<and> getID m2 x = (m2, i) \<and> getName m2 j = Some y \<and> getName m2 i = Some x"
    if neq: "y \<noteq> x" for y
  proof -
    obtain m2 j where g2: "getID m1 y = (m2, j)" by (cases "getID m1 y")
    have c2: "consistent m2"
      using reachable_consistent [OF r_getID [OF r1, of y]] g2 by simp
    have l2: "map_of (item_dict m2) y = Some j" using getID_lookup [of m1 y] g2 by simp
    have l2x: "map_of (item_dict m2) x = Some i" using getID_keeps [OF l1, of y] g2 by simp
    have k2: "has_key (item_dict m2) x" using l2x by (simp add: has_key_map_of)
    have "j \<noteq> i"
    proof
      assume "j = i"
      with c2 l2 l2x have "Some y = Some x" unfolding consistent_def by metis
      with neq show False by simp
    qed
    moreover have "getID m2 x = (m2, i)" using getID_again [OF k2] l2x by simp
    moreover have "getName m2 j = Some y"
      using c2 l2 by (auto simp: consistent_def getName_def has_key_map_of)
    moreover have "getName m2 i = Some x"
      using c2 l2x by (auto simp: consistent_def getName_def has_key_map_of)
    ultimately show ?thesis using g2 by simp
  qed
  show ?thesis using g1 again name1 other by simp
qed

theorem getID_idempotent_injective_witness:
  "reachable (NameToIDMap_init [''q0'', ''q1'']) \<and>
   snd (getID (NameToIDMap_init [''q0'', ''q1'']) ''q2'') = 2 \<and>
   (case getID (NameToIDMap_init [''q0'', ''q1'']) ''q2'' of
      (m1, i) \<Rightarrow> getID m1 ''q2'' = (m1, i) \<and> getName m1 i = Some ''q2'')"
proof -
  have v: "snd (getID (NameToIDMap_init [''q0'', ''q1'']) ''q2'') = 2"
    by code_simp
  show ?thesis
    using r_init [of "[''q0'', ''q1'']"]
      getID_idempotent_injective [of "NameToIDMap_init [''q0'', ''q1'']" "''q2''"] v
    by (auto split: prod.splits)
qed

subsection \<open>Facts about the search engine\<close>

lemma pq_get_nonempty:
  "pq_qsize q > 0 \<Longrightarrow> \<exists>state depth cost q'. pq_get q = (Some (state, depth, cost), q')"
  by (auto simp: pq_get_def split: prod.splits)

lemma loop_induct [consumes 1, case_names exit reject goal raise step]:
  assumes run: "optimization_pass_loop e prev = Some r"
    and exit: "\<And>e prev. \<not> loop_guard e \<Longrightarrow> P e prev (loop_exit e)"
    and reject: "\<And>e prev state depth cost q e1.
        loop_guard e \<Longrightarrow> pq_get (pq e) = (Some (state, depth, cost), q) \<Longrightarrow>
        e1 = update_minimum_reached (e\<lparr>pq := q\<rparr>) (Some cost) \<Longrightarrow>
        cost_bounds_exceeded e1 (Some cost) \<Longrightarrow>
        P e prev (e1\<lparr>events := Reject depth # events e1\<rparr>, Returned None)"
    and goal: "\<And>e prev state depth cost q e1 e4.
        loop_guard e \<Longrightarrow> pq_get (pq e) = (Some (state, depth, cost), q) \<Longrightarrow>
        e1 = update_minimum_reached (e\<lparr>pq := q\<rparr>) (Some cost) \<Longrightarrow>
        \<not> cost_bounds_exceeded e1 (Some cost) \<Longrightarrow>
        e4 = account_visit e1 depth prev \<Longrightarrow> goal_state_func e4 state \<Longrightarrow>
        P e prev (goal_return e4 state cost, Returned (Some (state, cost)))"
    and raise: "\<And>e prev state depth cost q e1 e4 err.
        loop_guard e \<Longrightarrow> pq_get (pq e) = (Some (state, depth, cost), q) \<Longrightarrow>
        e1 = update_minimum_reached (e\<lparr>pq := q\<rparr>) (Some cost) \<Longrightarrow>
        \<not> cost_bounds_exceeded e1 (Some cost) \<Longrightarrow>
        e4 = account_visit e1 depth prev \<Longrightarrow> \<not> goal_state_func e4 state \<Longrightarrow>
        next_state_func e4 state = Inl err \<Longrightarrow>
        P e prev (e4, Raised err)"
    and step: "\<And>e prev state depth cost q e1 e4 succs r.
        loop_guard e \<Longrightarrow> pq_get (pq e) = (Some (state, depth, cost), q) \<Longrightarrow>
        e1 = update_minimum_reached (e\<lparr>pq := q\<rparr>) (Some cost) \<Longrightarrow>
        \<not> cost_bounds_exceeded e1 (Some cost) \<Longrightarrow>
        e4 = account_visit e1 depth prev \<Longrightarrow> \<not> goal_state_func e4 state \<Longrightarrow>
        next_state_func e4 state = Inr succs \<Longrightarrow>
        P (put e4 succs (depth + 1)) (Some depth) r \<Longrightarrow>
        P e prev r"
  shows "P e prev r"
  using run
proof (induct rule: optimization_pass_loop.raw_induct [rotated 1, consumes 1, case_names 1])
  case (1 f e prev r)
  show ?case
  proof (cases "loop_guard e")
    case False
    with 1(2) have "r = loop_exit e" by simp
    with exit [OF False] show ?thesis by simp
  next
    case True
    then have "pq_qsize (pq e) > 0" by (simp add: loop_guard_def)
    then obtain state depth cost q where g: "pq_get (pq e) = (Some (state, depth, cost), q)"
      using pq_get_nonempty by blast
    define e1 where "e1 = update_minimum_reached (e\<lparr>pq := q\<rparr>) (Some cost)"
    define e4 where "e4 = account_visit e1 depth prev"
    show ?thesis
    proof (cases "cost_bounds_exceeded e1 (Some cost)")
      case ex: True
      with 1(2) True g have "r = (e1\<lparr>events := Reject depth # events e1\<rparr>, Returned None)"
      by (simp add: loop_body_def e1_def Let_def)
      with reject [OF True g e1_def ex] show ?thesis by simp
    next
      case nex: False
      show ?thesis
      proof (cases "goal_state_func e4 state")
        case gl: True
        with 1(2) True g nex have "r = (goal_return e4 state cost, Returned (Some (state, cost)))"
          by (simp add: loop_body_def e1_def e4_def Let_def)
        with goal [OF True g e1_def nex e4_def gl] show ?thesis by simp
      next
        case ngl: False
        show ?thesis
        proof (cases "next_state_func e4 state")
          case (Inl err)
          with 1(2) True g nex ngl have "r = (e4, Raised err)"
            by (simp add: loop_body_def e1_def e4_def Let_def)
          with raise [OF True g e1_def nex e4_def ngl Inl] show ?thesis by simp
        next
          case (Inr succs)
          with 1(2) True g nex ngl have "f (put e4 succs (depth + 1)) (Some depth) = Some r"
            by (simp add: loop_body_def e1_def e4_def Let_def)
          then have "P (put e4 succs (depth + 1)) (Some depth) r" by (rule 1(1))
          with step [OF True g e1_def nex e4_def ngl Inr] show ?thesis by simp
        qed
      qed
    qed
  qed
qed


lemma put_one_fields [simp]:
  "seed (put_one d s e) = seed e"
  "cost_func (put_one d s e) = cost_func e"
  "next_state_func (put_one d s e) = next_state_func e"
  "goal_state_func (put_one d s e) = goal_state_func e"
  "upperbound_cost_func (put_one d s e) = upperbound_cost_func e"
  "mincost_bound_func (put_one d s e) = mincost_bound_func e"
  "stop_at_first_min (put_one d s e) = stop_at_first_min e"
  "max_backjumps (put_one d s e) = max_backjumps e"
  "upperbound_cost (put_one d s e) = upperbound_cost e"
  "mincost_bound (put_one d s e) = mincost_bound e"
  "min_reached (put_one d s e) = min_reached e"
  "num_states_visited (put_one d s e) = num_states_visited e"
  "num_next_states (put_one d s e) = num_next_states e"
  "num_backjumps (put_one d s e) = num_backjumps e"
  "penultimate_stats (put_one d s e) = penultimate_stats e"
  "events (put_one d s e) = events e"
  by (simp_all add: put_one_def Let_def)

lemma put_one_random_gen [simp]: "random_gen (pq (put_one d s e)) = random_gen (pq e)"
  by (simp add: put_one_def Let_def pq_put_def)

lemma within_bound_cong:
  "upperbound_cost e' = upperbound_cost e \<Longrightarrow> cost_func e' = cost_func e \<Longrightarrow>
   within_bound e' = within_bound e"
  by (rule ext) (simp add: within_bound_def)

lemma within_bound_put_one [simp]: "within_bound (put_one d s e) = within_bound e"
  by (rule within_bound_cong) simp_all

lemma fold_put_one_fields [simp]:
  "seed (fold (put_one d) l e) = seed e"
  "cost_func (fold (put_one d) l e) = cost_func e"
  "next_state_func (fold (put_one d) l e) = next_state_func e"
  "goal_state_func (fold (put_one d) l e) = goal_state_func e"
  "upperbound_cost_func (fold (put_one d) l e) = upperbound_cost_func e"
  "mincost_bound_func (fold (put_one d) l e) = mincost_bound_func e"
  "stop_at_first_min (fold (put_one d) l e) = stop_at_first_min e"
  "max_backjumps (fold (put_one d) l e) = max_backjumps e"
  "upperbound_cost (fold (put_one d) l e) = upperbound_cost e"
  "mincost_bound (fold (put_one d) l e) = mincost_bound e"
  "min_reached (fold (put_one d) l e) = min_reached e"
  "num_states_visited (fold (put_one d) l e) = num_states_visited e"
  "num_next_states (fold (put_one d) l e) = num_next_states e"
  "num_backjumps (fold (put_one d) l e) = num_backjumps e"
  "penultimate_stats (fold (put_one d) l e) = penultimate_stats e"
  "events (fold (put_one d) l e) = events e"
  by (induction l arbitrary: e; simp)+

lemma fold_put_one_random_gen [simp]:
  "random_gen (pq (fold (put_one d) l e)) = random_gen (pq e)"
  by (induction l arbitrary: e) simp_all

lemma put_one_counts:
  "num_enqueues (put_one d s e) = num_enqueues e + (if within_bound e s then 1 else 0)"
  "drawn (pq (put_one d s e)) = drawn (pq e) + (if within_bound e s then 1 else 0)"
  "unique (pq (put_one d s e)) = unique (pq e) + (if within_bound e s then 1 else 0)"
  "pqueue (pq (put_one d s e)) =
     pqueue (pq e) @
     (if within_bound e s
      then [(cost_func e s, - d, random_gen (pq e) (drawn (pq e)), unique (pq e), s)] else [])"
  by (auto simp: put_one_def within_bound_def Let_def pq_put_def heappush_def)

lemma fold_put_one_enqueues:
  "num_enqueues (fold (put_one d) l e) = num_enqueues e + length (filter (within_bound e) l)"
  by (induction l arbitrary: e) (simp_all add: put_one_counts)

lemma fold_put_one_queue:
  "pqueue (pq (fold (put_one d) l e)) =
     pqueue (pq e) @
     map (\<lambda>(k, s). (cost_func e s, - d, random_gen (pq e) (drawn (pq e) + k), unique (pq e) + k, s))
       (List.enumerate 0 (filter (within_bound e) l))"
  by (induction l arbitrary: e)
    (simp_all add: put_one_counts enumerate_Suc_eq [of 0] comp_def case_prod_beta)

lemma put_fields [simp]:
  "seed (put e l d) = seed e"
  "cost_func (put e l d) = cost_func e"
  "next_state_func (put e l d) = next_state_func e"
  "goal_state_func (put e l d) = goal_state_func e"
  "upperbound_cost_func (put e l d) = upperbound_cost_func e"
  "mincost_bound_func (put e l d) = mincost_bound_func e"
  "stop_at_first_min (put e l d) = stop_at_first_min e"
  "max_backjumps (put e l d) = max_backjumps e"
  "upperbound_cost (put e l d) = upperbound_cost e"
  "mincost_bound (put e l d) = mincost_bound e"
  "min_reached (put e l d) = min_reached e"
  "num_states_visited (put e l d) = num_states_visited e"
  "num_backjumps (put e l d) = num_backjumps e"
  "penultimate_stats (put e l d) = penultimate_stats e"
  "events (put e l d) = events e"
  by (simp_all add: put_def)

lemma put_counts:
  "num_next_states (put e l d) = num_next_states e + length l"
  "num_enqueues (put e l d) = num_enqueues e + length (filter (within_bound e) l)"
  "pqueue (pq (put e l d)) =
     pqueue (pq e) @
     map (\<lambda>(k, s). (cost_func e s, - d, random_gen (pq e) (drawn (pq e) + k), unique (pq e) + k, s))
       (List.enumerate 0 (filter (within_bound e) l))"
  by (simp_all add: put_def fold_put_one_enqueues fold_put_one_queue
      within_bound_cong [of "e\<lparr>num_next_states := num_next_states e + length l\<rparr>" e])

lemma update_minimum_reached_fields [simp]:
  "seed (update_minimum_reached e c) = seed e"
  "cost_func (update_minimum_reached e c) = cost_func e"
  "next_state_func (update_minimum_reached e c) = next_state_func e"
  "goal_state_func (update_minimum_reached e c) = goal_state_func e"
  "upperbound_cost_func (update_minimum_reached e c) = upperbound_cost_func e"
  "mincost_bound_func (update_minimum_reached e c) = mincost_bound_func e"
  "stop_at_first_min (update_minimum_reached e c) = stop_at_first_min e"
  "max_backjumps (update_minimum_reached e c) = max_backjumps e"
  "pq (update_minimum_reached e c) = pq e"
  "upperbound_cost (update_minimum_reached e c) = upperbound_cost e"
  "mincost_bound (update_minimum_reached e c) = mincost_bound e"
  "num_states_visited (update_minimum_reached e c) = num_states_visited e"
  "num_next_states (update_minimum_reached e c) = num_next_states e"
  "num_enqueues (update_minimum_reached e c) = num_enqueues e"
  "num_backjumps (update_minimum_reached e c) = num_backjumps e"
  "penultimate_stats (update_minimum_reached e c) = penultimate_stats e"
  "events (update_minimum_reached e c) = events e"
  by (simp_all add: update_minimum_reached_def)

lemma account_visit_fields [simp]:
  "seed (account_visit e d p) = seed e"
  "cost_func (account_visit e d p) = cost_func e"
  "next_state_func (account_visit e d p) = next_state_func e"
  "goal_state_func (account_visit e d p) = goal_state_func e"
  "upperbound_cost_func (account_visit e d p) = upperbound_cost_func e"
  "mincost_bound_func (account_visit e d p) = mincost_bound_func e"
  "stop_at_first_min (account_visit e d p) = stop_at_first_min e"
  "max_backjumps (account_visit e d p) = max_backjumps e"
  "pq (account_visit e d p) = pq e"
  "upperbound_cost (account_visit e d p) = upperbound_cost e"
  "mincost_bound (account_visit e d p) = mincost_bound e"
  "min_reached (account_visit e d p) = min_reached e"
  "num_next_states (account_visit e d p) = num_next_states e"
  "num_enqueues (account_visit e d p) = num_enqueues e"
  "penultimate_stats (account_visit e d p) = penultimate_stats e"
  by (simp_all add: account_visit_def Let_def)

lemma update_upperbound_goal_state_fields [simp]:
  "seed (update_upperbound_goal_state e g) = seed e"
  "cost_func (update_upperbound_goal_state e g) = cost_func e"
  "next_state_func (update_upperbound_goal_state e g) = next_state_func e"
  "goal_state_func (update_upperbound_goal_state e g) = goal_state_func e"
  "upperbound_cost_func (update_upperbound_goal_state e g) = upperbound_cost_func e"
  "mincost_bound_func (update_upperbound_goal_state e g) = mincost_bound_func e"
  "stop_at_first_min (update_upperbound_goal_state e g) = stop_at_first_min e"
  "max_backjumps (update_upperbound_goal_state e g) = max_backjumps e"
  "pq (update_upperbound_goal_state e g) = pq e"
  "mincost_bound (update_upperbound_goal_state e g) = mincost_bound e"
  "min_reached (update_upperbound_goal_state e g) = min_reached e"
  "num_states_visited (update_upperbound_goal_state e g) = num_states_visited e"
  "num_next_states (update_upperbound_goal_state e g) = num_next_states e"
  "num_enqueues (update_upperbound_goal_state e g) = num_enqueues e"
  "num_backjumps (update_upperbound_goal_state e g) = num_backjumps e"
  "penultimate_stats (update_upperbound_goal_state e g) = penultimate_stats e"
  "events (update_upperbound_goal_state e g) = events e"
  by (simp_all add: update_upperbound_goal_state_def Let_def)

lemma update_upperbound_cost_fields [simp]:
  "seed (update_upperbound_cost e b) = seed e"
  "cost_func (update_upperbound_cost e b) = cost_func e"
  "next_state_func (update_upperbound_cost e b) = next_state_func e"
  "goal_state_func (update_upperbound_cost e b) = goal_state_func e"
  "upperbound_cost_func (update_upperbound_cost e b) = upperbound_cost_func e"
  "mincost_bound_func (update_upperbound_cost e b) = mincost_bound_func e"
  "stop_at_first_min (update_upperbound_cost e b) = stop_at_first_min e"
  "max_backjumps (update_upperbound_cost e b) = max_backjumps e"
  "pq (update_upperbound_cost e b) = pq e"
  "mincost_bound (update_upperbound_cost e b) = mincost_bound e"
  "min_reached (update_upperbound_cost e b) = min_reached e"
  "num_states_visited (update_upperbound_cost e b) = num_states_visited e"
  "num_next_states (update_upperbound_cost e b) = num_next_states e"
  "num_enqueues (update_upperbound_cost e b) = num_enqueues e"
  "num_backjumps (update_upperbound_cost e b) = num_backjumps e"
  "penultimate_stats (update_upperbound_cost e b) = penultimate_stats e"
  "events (update_upperbound_cost e b) = events e"
  by (simp_all add: update_upperbound_cost_def split: option.splits)

lemma goal_return_fields [simp]:
  "seed (goal_return e g c) = seed e"
  "cost_func (goal_return e g c) = cost_func e"
  "next_state_func (goal_return e g c) = next_state_func e"
  "goal_state_func (goal_return e g c) = goal_state_func e"
  "upperbound_cost_func (goal_return e g c) = upperbound_cost_func e"
  "mincost_bound_func (goal_return e g c) = mincost_bound_func e"
  "stop_at_first_min (goal_return e g c) = stop_at_first_min e"
  "max_backjumps (goal_return e g c) = max_backjumps e"
  "pq (goal_return e g c) = pq e"
  "mincost_bound (goal_return e g c) = mincost_bound e"
  "num_states_visited (goal_return e g c) = num_states_visited e"
  "num_next_states (goal_return e g c) = num_next_states e"
  "num_enqueues (goal_return e g c) = num_enqueues e"
  "num_backjumps (goal_return e g c) = num_backjumps e"
  "events (goal_return e g c) = events e"
  by (simp_all add: goal_return_def Let_def)

lemma loop_exit_fields [simp]:
  "seed (fst (loop_exit e)) = seed e"
  "cost_func (fst (loop_exit e)) = cost_func e"
  "next_state_func (fst (loop_exit e)) = next_state_func e"
  "goal_state_func (fst (loop_exit e)) = goal_state_func e"
  "upperbound_cost_func (fst (loop_exit e)) = upperbound_cost_func e"
  "mincost_bound_func (fst (loop_exit e)) = mincost_bound_func e"
  "stop_at_first_min (fst (loop_exit e)) = stop_at_first_min e"
  "max_backjumps (fst (loop_exit e)) = max_backjumps e"
  "pq (fst (loop_exit e)) = pq e"
  "upperbound_cost (fst (loop_exit e)) = upperbound_cost e"
  "mincost_bound (fst (loop_exit e)) = mincost_bound e"
  "num_states_visited (fst (loop_exit e)) = num_states_visited e"
  "num_next_states (fst (loop_exit e)) = num_next_states e"
  "num_enqueues (fst (loop_exit e)) = num_enqueues e"
  "num_backjumps (fst (loop_exit e)) = num_backjumps e"
  "penultimate_stats (fst (loop_exit e)) = penultimate_stats e"
  "events (fst (loop_exit e)) = events e"
  by (simp_all add: loop_exit_def)

lemma account_visit_counts:
  "events (account_visit e d p) = Visit d # events e"
  "num_backjumps (account_visit e d p) =
     num_backjumps e + (if p \<noteq> None \<and> d \<le> the p then 1 else 0)"
  "num_states_visited (account_visit e d p) = num_states_visited e + 1"
  by (simp_all add: account_visit_def Let_def)


lemma same_pass_backjumps_Visit:
  "same_pass_backjumps (Visit d # ev) =
     (case prev_of ev of Some d1 \<Rightarrow> if d \<le> d1 then 1 else 0 | None \<Rightarrow> 0) + same_pass_backjumps ev"
  by (cases ev rule: prev_of.cases) simp_all

lemma loop_backjumps:
  assumes "optimization_pass_loop e prev = Some r"
    and "prev = prev_of (events e)"
    and "num_backjumps e = same_pass_backjumps (events e)"
  shows "num_backjumps (fst r) = same_pass_backjumps (events (fst r))"
  using assms
proof (induction rule: loop_induct)
  case (exit e prev)
  then show ?case by simp
next
  case (reject e prev state depth cost q e1)
  then show ?case by simp
next
  case (goal e prev state depth cost q e1 e4)
  then show ?case
    by (simp add: account_visit_counts same_pass_backjumps_Visit split: option.splits)
next
  case (raise e prev state depth cost q e1 e4 err)
  then show ?case
    by (simp add: account_visit_counts same_pass_backjumps_Visit split: option.splits)
next
  case (step e prev state depth cost q e1 e4 succs r)
  have "Some depth = prev_of (events (put e4 succs (depth + 1)))"
    using step.hyps(5) by (simp add: account_visit_counts)
  moreover have "num_backjumps (put e4 succs (depth + 1)) =
      same_pass_backjumps (events (put e4 succs (depth + 1)))"
    using step.hyps(3,5) step.prems
    by (simp add: account_visit_counts same_pass_backjumps_Visit split: option.splits)
  ultimately show ?case by (rule step.IH)
qed

lemma pass_start_fields [simp]:
  "seed (pass_start e) = seed e"
  "cost_func (pass_start e) = cost_func e"
  "next_state_func (pass_start e) = next_state_func e"
  "goal_state_func (pass_start e) = goal_state_func e"
  "upperbound_cost_func (pass_start e) = upperbound_cost_func e"
  "mincost_bound_func (pass_start e) = mincost_bound_func e"
  "stop_at_first_min (pass_start e) = stop_at_first_min e"
  "max_backjumps (pass_start e) = max_backjumps e"
  "pq (pass_start e) = pq e"
  "upperbound_cost (pass_start e) = upperbound_cost e"
  "min_reached (pass_start e) = min_reached e"
  "num_states_visited (pass_start e) = num_states_visited e"
  "num_next_states (pass_start e) = num_next_states e"
  "num_enqueues (pass_start e) = num_enqueues e"
  "num_backjumps (pass_start e) = num_backjumps e"
  "penultimate_stats (pass_start e) = penultimate_stats e"
  "events (pass_start e) = PassStart # events e"
  by (simp_all add: pass_start_def Let_def split: option.splits)

lemma pass_backjumps:
  assumes "optimization_pass e = Some (e', r)"
    and "num_backjumps e = same_pass_backjumps (events e)"
  shows "num_backjumps e' = same_pass_backjumps (events e')"
proof -
  have run: "optimization_pass_loop (pass_start e) None = Some (e', r)"
    using assms(1) by (simp add: optimization_pass_def)
  show ?thesis
    using loop_backjumps [OF run] assms(2) by simp
qed

subsection \<open>Rounds of the loop, and engines that differ in their generators\<close>

lemma cost_bounds_exceeded_cong:
  "mincost_bound e' = mincost_bound e \<Longrightarrow> upperbound_cost e' = upperbound_cost e \<Longrightarrow>
   cost_bounds_exceeded e' c = cost_bounds_exceeded e c"
  by (simp add: cost_bounds_exceeded_def)

lemma min_reached_update:
  "min_reached (update_minimum_reached e c) \<longleftrightarrow>
     min_reached e \<or> c = None \<or> (upperbound_cost e \<noteq> None \<and> the (upperbound_cost e) \<le> the c)"
  by (auto simp: update_minimum_reached_def)


lemma Continue_loop_body:
  assumes "loop_body e prev = Continue e1 p1"
  shows "\<exists>state depth cost q succs.
           pq_get (pq e) = (Some (state, depth, cost), q) \<and>
           \<not> cost_bounds_exceeded e (Some cost) \<and>
           \<not> goal_state_func e state \<and>
           next_state_func e state = Inr succs \<and>
           e1 = put (account_visit (update_minimum_reached (e\<lparr>pq := q\<rparr>) (Some cost)) depth prev)
                  succs (depth + 1) \<and>
           p1 = Some depth"
proof (cases "pq_get (pq e)")
  case (Pair x q)
  show ?thesis
  proof (cases x)
    case None
    with Pair assms show ?thesis by (simp add: loop_body_def)
  next
    case (Some t)
    obtain state depth cost where t: "t = (state, depth, cost)" by (cases t) auto
    have c: "cost_bounds_exceeded (update_minimum_reached (e\<lparr>pq := q\<rparr>) (Some cost)) (Some cost) =
        cost_bounds_exceeded e (Some cost)"
      by (rule cost_bounds_exceeded_cong) simp_all
    from assms Pair Some t c show ?thesis
      by (cases "next_state_func e state")
         (auto simp: loop_body_def Let_def split: if_splits)
  qed
qed

lemma Continue_min_reached:
  assumes "loop_body e prev = Continue e1 p1"
  shows "min_reached e1 \<longleftrightarrow> min_reached e \<or> bound_reached_at e"
proof -
  from Continue_loop_body [OF assms] obtain state depth cost q succs where
    g: "pq_get (pq e) = (Some (state, depth, cost), q)" and
    e1: "e1 = put (account_visit (update_minimum_reached (e\<lparr>pq := q\<rparr>) (Some cost)) depth prev)
                  succs (depth + 1)"
    by blast
  show ?thesis
    unfolding e1 by (cases "upperbound_cost e") (simp_all add: min_reached_update bound_reached_at_def g)
qed

lemma Continue_statics:
  assumes "loop_body e prev = Continue e1 p1"
  shows "max_backjumps e1 = max_backjumps e"
proof -
  from Continue_loop_body [OF assms] obtain state depth cost q succs where
    e1: "e1 = put (account_visit (update_minimum_reached (e\<lparr>pq := q\<rparr>) (Some cost)) depth prev)
                  succs (depth + 1)"
    by blast
  show ?thesis unfolding e1 by simp
qed

lemma iterate_loop:
  "iterate n e p = Some (ex, px) \<Longrightarrow> optimization_pass_loop e p = optimization_pass_loop ex px"
proof (induction n arbitrary: e p)
  case 0
  then show ?case by simp
next
  case (Suc n)
  from Suc.prems have g: "loop_guard e" by (simp split: if_splits)
  from Suc.prems g obtain e1 p1 where b: "loop_body e p = Continue e1 p1"
    and it: "iterate n e1 p1 = Some (ex, px)"
    by (cases "loop_body e p") simp_all
  have "optimization_pass_loop e p = optimization_pass_loop e1 p1"
    using g b by (subst optimization_pass_loop.simps) simp
  with Suc.IH [OF it] show ?case by simp
qed

lemma iterate_max_backjumps:
  "iterate n e p = Some (ex, px) \<Longrightarrow> max_backjumps ex = max_backjumps e"
proof (induction n arbitrary: e p)
  case 0
  then show ?case by simp
next
  case (Suc n)
  from Suc.prems have g: "loop_guard e" by (simp split: if_splits)
  from Suc.prems g obtain e1 p1 where b: "loop_body e p = Continue e1 p1"
    and it: "iterate n e1 p1 = Some (ex, px)"
    by (cases "loop_body e p") simp_all
  from Suc.IH [OF it] Continue_statics [OF b] show ?case by simp
qed

lemma iterate_min_reached:
  "iterate n e p = Some (ex, px) \<Longrightarrow>
   min_reached ex \<longleftrightarrow>
     min_reached e \<or> (\<exists>k<n. \<exists>ek pk. iterate k e p = Some (ek, pk) \<and> bound_reached_at ek)"
proof (induction n arbitrary: e p)
  case 0
  then show ?case by simp
next
  case (Suc n)
  from Suc.prems have g: "loop_guard e" by (simp split: if_splits)
  from Suc.prems g obtain e1 p1 where b: "loop_body e p = Continue e1 p1"
    and it: "iterate n e1 p1 = Some (ex, px)"
    by (cases "loop_body e p") simp_all
  have shift: "iterate (Suc k) e p = iterate k e1 p1" for k
    using g b by simp
  have "(\<exists>k<Suc n. \<exists>ek pk. iterate k e p = Some (ek, pk) \<and> bound_reached_at ek) \<longleftrightarrow>
        bound_reached_at e \<or> (\<exists>k<n. \<exists>ek pk. iterate k e1 p1 = Some (ek, pk) \<and> bound_reached_at ek)"
    (is "?L \<longleftrightarrow> ?R")
  proof
    assume ?L
    then obtain k ek pk where k: "k < Suc n" "iterate k e p = Some (ek, pk)" "bound_reached_at ek"
      by blast
    show ?R
    proof (cases k)
      case 0
      with k show ?thesis by simp
    next
      case (Suc j)
      with k shift [of j] have "j < n" "iterate j e1 p1 = Some (ek, pk)" by simp_all
      with k(3) show ?thesis by blast
    qed
  next
    assume ?R
    then show ?L
    proof
      assume "bound_reached_at e"
      then have "iterate 0 e p = Some (e, p) \<and> bound_reached_at e" by simp
      then show ?L by blast
    next
      assume "\<exists>k<n. \<exists>ek pk. iterate k e1 p1 = Some (ek, pk) \<and> bound_reached_at ek"
      then obtain j ek pk where j: "j < n" "iterate j e1 p1 = Some (ek, pk)" "bound_reached_at ek"
        by blast
      with shift [of j] have "Suc j < Suc n" "iterate (Suc j) e p = Some (ek, pk)" by simp_all
      with j(3) show ?L by blast
    qed
  qed
  with Suc.IH [OF it] Continue_min_reached [OF b] show ?case by blast
qed










lemma pq_get_queue:
  "pq_get q = (fst (pq_get q), q\<lparr>pqueue := pqueue (snd (pq_get q))\<rparr>)"
  by (simp add: pq_get_def split: prod.splits)


















subsection \<open>The order of the popped costs\<close>

lemma entry_key_le:
  fixes x y :: "('s, 'c::linorder, 'r::linorder) entry"
  shows "entry_key x \<le> entry_key y \<Longrightarrow> fst x \<le> fst y"
  by (auto simp: entry_key_def less_eq_prod_def split: prod.splits)

lemma heappop_min:
  assumes "h \<noteq> []" and "heappop h = (best, rest)"
  shows "best \<in> set h" and "set rest \<subseteq> set h" and "\<forall>x \<in> set h. fst best \<le> fst x"
proof -
  have b: "best = arg_min_list entry_key h" and r: "rest = remove1 best h"
    using assms(2) by (auto simp: heappop_def Let_def)
  show "best \<in> set h" using b arg_min_list_in [OF assms(1)] by simp
  show "set rest \<subseteq> set h" using r by (simp add: set_remove1_subset)
  have "\<forall>x \<in> set h. entry_key best \<le> entry_key x"
    using b f_arg_min_list_f [OF assms(1), of entry_key] by simp
  then show "\<forall>x \<in> set h. fst best \<le> fst x" using entry_key_le by blast
qed

lemma pq_get_min:
  assumes "pq_get q = (Some (state, depth, cost), q')"
  shows "\<exists>x \<in> set (pqueue q). fst x = cost \<and> entry_state x = state"
    and "set (pqueue q') \<subseteq> set (pqueue q)"
    and "\<forall>x \<in> set (pqueue q). cost \<le> fst x"
proof -
  have ne: "pqueue q \<noteq> []" using assms by (auto simp: pq_get_def pq_qsize_def split: if_splits)
  obtain best rest where h: "heappop (pqueue q) = (best, rest)" by (cases "heappop (pqueue q)")
  have c: "fst best = cost" "entry_state best = state" and q': "pqueue q' = rest"
    using assms h ne by (auto simp: pq_get_def pq_qsize_def entry_state_def split: prod.splits)
  note m = heappop_min [OF ne h]
  show "\<exists>x \<in> set (pqueue q). fst x = cost \<and> entry_state x = state" using m(1) c by blast
  show "set (pqueue q') \<subseteq> set (pqueue q)" using m(2) q' by simp
  show "\<forall>x \<in> set (pqueue q). cost \<le> fst x" using m(3) c by simp
qed

lemma enumerate_mem: "(k, s) \<in> set (List.enumerate n xs) \<Longrightarrow> s \<in> set xs"
  by (auto simp: in_set_enumerate_eq)

lemma put_queue_set:
  "set (pqueue (pq (put e l d))) \<subseteq>
     set (pqueue (pq e)) \<union> {x. entry_state x \<in> set l \<and> fst x = cost_func e (entry_state x)}"
  by (auto simp: put_counts entry_state_def dest!: enumerate_mem)


lemma loop_statics:
  assumes "optimization_pass_loop e prev = Some r"
  shows "cost_func (fst r) = cost_func e \<and> next_state_func (fst r) = next_state_func e \<and>
         mincost_bound_func (fst r) = mincost_bound_func e \<and>
         mincost_bound (fst r) = mincost_bound e \<and>
         max_backjumps (fst r) = max_backjumps e \<and>
         stop_at_first_min (fst r) = stop_at_first_min e"
  using assms by (induction rule: loop_induct) simp_all

lemma above_subset:
  assumes "above b e" and "set (pqueue (pq e')) \<subseteq> set (pqueue (pq e))"
  shows "above b e'"
  unfolding above_def
proof
  fix x assume "x \<in> set (pqueue (pq e'))"
  then have "x \<in> set (pqueue (pq e))" using assms(2) by (rule subsetD [rotated])
  then show "b \<le> fst x" using assms(1) by (simp add: above_def)
qed

lemma costed_subset:
  assumes "costed e" and "set (pqueue (pq e')) \<subseteq> set (pqueue (pq e))"
    and "cost_func e' = cost_func e"
  shows "costed e'"
  unfolding costed_def
proof
  fix x assume "x \<in> set (pqueue (pq e'))"
  then have "x \<in> set (pqueue (pq e))" using assms(2) by (rule subsetD [rotated])
  then have "fst x = cost_func e (entry_state x)" using assms(1) by (simp add: costed_def)
  then show "fst x = cost_func e' (entry_state x)" by (simp add: assms(3))
qed

lemma monotone_costs_cong:
  "monotone_costs e \<Longrightarrow> cost_func e' = cost_func e \<Longrightarrow> next_state_func e' = next_state_func e \<Longrightarrow>
   monotone_costs e'"
  unfolding monotone_costs_def by simp

lemma put_queue_cases:
  assumes "x \<in> set (pqueue (pq (put e l d)))"
  shows "x \<in> set (pqueue (pq e)) \<or> (entry_state x \<in> set l \<and> fst x = cost_func e (entry_state x))"
proof -
  have "x \<in> set (pqueue (pq e)) \<union> {x. entry_state x \<in> set l \<and> fst x = cost_func e (entry_state x)}"
    using assms put_queue_set [of e l d] by (rule subsetD [rotated])
  then show ?thesis by simp
qed

lemma costed_put:
  assumes "costed e" shows "costed (put e l d)"
  unfolding costed_def
proof
  fix x assume "x \<in> set (pqueue (pq (put e l d)))"
  then consider "x \<in> set (pqueue (pq e))" | "fst x = cost_func e (entry_state x)"
    using put_queue_cases by blast
  then show "fst x = cost_func (put e l d) (entry_state x)"
  proof cases
    case 1
    then have "fst x = cost_func e (entry_state x)" using assms by (simp add: costed_def)
    then show ?thesis by simp
  next
    case 2
    then show ?thesis by simp
  qed
qed

lemma above_put:
  assumes "above b e" and "\<forall>s \<in> set l. b \<le> cost_func e s"
  shows "above b (put e l d)"
  unfolding above_def
proof
  fix x assume "x \<in> set (pqueue (pq (put e l d)))"
  then consider "x \<in> set (pqueue (pq e))"
    | "entry_state x \<in> set l" "fst x = cost_func e (entry_state x)"
    using put_queue_cases by blast
  then show "b \<le> fst x"
  proof cases
    case 1
    then show ?thesis using assms(1) by (simp add: above_def)
  next
    case 2
    then show ?thesis using assms(2) by simp
  qed
qed

lemma above_popped:
  assumes "pq_get (pq e) = (Some (state, depth, cost), q)" and "above b e"
  shows "b \<le> cost"
proof -
  obtain x where "x \<in> set (pqueue (pq e))" and "fst x = cost"
    using pq_get_min(1) [OF assms(1)] by blast
  then show ?thesis using assms(2) by (auto simp: above_def)
qed

lemma above_rest:
  assumes "pq_get (pq e) = (Some (state, depth, cost), q)" and "pqueue (pq e') = pqueue q"
  shows "above cost e'"
  unfolding above_def
proof
  fix x assume "x \<in> set (pqueue (pq e'))"
  then have "x \<in> set (pqueue q)" by (simp add: assms(2))
  then have "x \<in> set (pqueue (pq e))"
    using pq_get_min(2) [OF assms(1)] by (rule subsetD [rotated])
  then show "cost \<le> fst x" using pq_get_min(3) [OF assms(1)] by simp
qed

lemma popped_cost:
  assumes "pq_get (pq e) = (Some (state, depth, cost), q)" and "costed e"
  shows "cost = cost_func e state"
proof -
  obtain x where "x \<in> set (pqueue (pq e))" and "fst x = cost" and "entry_state x = state"
    using pq_get_min(1) [OF assms(1)] by blast
  then show ?thesis using assms(2) by (auto simp: costed_def)
qed

lemma loop_order:
  assumes "optimization_pass_loop e prev = Some r"
    and "costed e" and "monotone_costs e"
  shows "costed (fst r) \<and> monotone_costs (fst r) \<and>
         (\<forall>b. above b e \<longrightarrow> above b (fst r) \<and> (\<forall>s c. snd r = Returned (Some (s, c)) \<longrightarrow> b \<le> c)) \<and>
         (\<forall>s c. snd r = Returned (Some (s, c)) \<longrightarrow> above c (fst r))"
  using assms
proof (induction rule: loop_induct)
  case (exit e prev)
  have "costed (fst (loop_exit e))"
    by (rule costed_subset [OF exit.prems(1)]) (simp_all add: loop_exit_def)
  moreover have "monotone_costs (fst (loop_exit e))"
    by (rule monotone_costs_cong [OF exit.prems(2)]) simp_all
  moreover have "above b (fst (loop_exit e))" if "above b e" for b
    by (rule above_subset [OF that]) (simp add: loop_exit_def)
  ultimately show ?case by (simp add: loop_exit_def)
next
  case (reject e prev state depth cost q e1)
  let ?e' = "e1\<lparr>events := Reject depth # events e1\<rparr>"
  have sub: "set (pqueue (pq ?e')) \<subseteq> set (pqueue (pq e))"
    using pq_get_min(2) [OF reject.hyps(2)] reject.hyps(3) by simp
  have "costed ?e'"
    by (rule costed_subset [OF reject.prems(1) sub]) (simp add: reject.hyps(3))
  moreover have "monotone_costs ?e'"
    by (rule monotone_costs_cong [OF reject.prems(2)]) (simp_all add: reject.hyps(3))
  moreover have "above b ?e'" if "above b e" for b
    by (rule above_subset [OF that sub])
  ultimately show ?case by simp
next
  case (goal e prev state depth cost q e1 e4)
  let ?e' = "goal_return e4 state cost"
  have pqe: "pqueue (pq ?e') = pqueue q" by (simp add: goal.hyps(3,5))
  have sub: "set (pqueue (pq ?e')) \<subseteq> set (pqueue (pq e))"
    using pq_get_min(2) [OF goal.hyps(2)] pqe by simp
  have "costed ?e'"
    by (rule costed_subset [OF goal.prems(1) sub]) (simp add: goal.hyps(3,5))
  moreover have "monotone_costs ?e'"
    by (rule monotone_costs_cong [OF goal.prems(2)]) (simp_all add: goal.hyps(3,5))
  moreover have "above b ?e'" "b \<le> cost" if "above b e" for b
    using above_subset [OF that sub] above_popped [OF goal.hyps(2) that] by simp_all
  moreover have "above cost ?e'"
    by (rule above_rest [OF goal.hyps(2) pqe])
  ultimately show ?case by simp
next
  case (raise e prev state depth cost q e1 e4 err)
  have sub: "set (pqueue (pq e4)) \<subseteq> set (pqueue (pq e))"
    using pq_get_min(2) [OF raise.hyps(2)] raise.hyps(3,5) by simp
  have "costed e4"
    by (rule costed_subset [OF raise.prems(1) sub]) (simp add: raise.hyps(3,5))
  moreover have "monotone_costs e4"
    by (rule monotone_costs_cong [OF raise.prems(2)]) (simp_all add: raise.hyps(3,5))
  moreover have "above b e4" if "above b e" for b
    by (rule above_subset [OF that sub])
  ultimately show ?case by simp
next
  case (step e prev state depth cost q e1 e4 succs r)
  let ?e' = "put e4 succs (depth + 1)"
  have f4: "cost_func e4 = cost_func e" "next_state_func e4 = next_state_func e"
    by (simp_all add: step.hyps(3,5))
  have sub: "set (pqueue (pq e4)) \<subseteq> set (pqueue (pq e))"
    using pq_get_min(2) [OF step.hyps(2)] step.hyps(3,5) by simp
  have c4: "costed e4" by (rule costed_subset [OF step.prems(1) sub f4(1)])
  have m4: "monotone_costs e4" by (rule monotone_costs_cong [OF step.prems(2) f4])
  have cst: "cost = cost_func e state" by (rule popped_cost [OF step.hyps(2) step.prems(1)])
  have "\<forall>s \<in> set succs. cost_func e4 state \<le> cost_func e4 s"
    using m4 step.hyps(7) unfolding monotone_costs_def by blast
  then have succ_ge: "\<forall>s \<in> set succs. cost \<le> cost_func e4 s"
    using cst f4 by simp
  have "costed ?e'" by (rule costed_put [OF c4])
  moreover have "monotone_costs ?e'" by (rule monotone_costs_cong [OF m4]) simp_all
  ultimately have IH: "costed (fst r) \<and> monotone_costs (fst r) \<and>
         (\<forall>b. above b ?e' \<longrightarrow> above b (fst r) \<and> (\<forall>s c. snd r = Returned (Some (s, c)) \<longrightarrow> b \<le> c)) \<and>
         (\<forall>s c. snd r = Returned (Some (s, c)) \<longrightarrow> above c (fst r))"
    by (rule step.IH)
  have up: "above b ?e'" if "above b e" for b
  proof (rule above_put)
    show "above b e4" by (rule above_subset [OF that sub])
    have "b \<le> cost" by (rule above_popped [OF step.hyps(2) that])
    then show "\<forall>s \<in> set succs. b \<le> cost_func e4 s" using succ_ge by fastforce
  qed
  have g3: "above b (fst r) \<and> (\<forall>s c. snd r = Returned (Some (s, c)) \<longrightarrow> b \<le> c)"
    if "above b e" for b
    using IH [THEN conjunct2, THEN conjunct2, THEN conjunct1, rule_format, OF up [OF that]] .
  show ?case
    using IH [THEN conjunct1] IH [THEN conjunct2, THEN conjunct1]
      IH [THEN conjunct2, THEN conjunct2, THEN conjunct2] g3
    by simp
qed

subsection \<open>Exhausted engines\<close>

lemma effective_mincost_cong:
  "mincost_bound_func e' = mincost_bound_func e \<Longrightarrow> mincost_bound e' = mincost_bound e \<Longrightarrow>
   effective_mincost e' = effective_mincost e"
  by (cases "mincost_bound_func e") (simp_all add: effective_mincost_def)

lemma loop_guard_cong:
  "pqueue (pq e') = pqueue (pq e) \<Longrightarrow> stop_at_first_min e' = stop_at_first_min e \<Longrightarrow>
   min_reached e' = min_reached e \<Longrightarrow> max_backjumps e' = max_backjumps e \<Longrightarrow>
   num_backjumps e' = num_backjumps e \<Longrightarrow> loop_guard e' = loop_guard e"
  by (simp add: loop_guard_def pq_qsize_def)

lemma exhausted_exit: "\<not> loop_guard e \<Longrightarrow> exhausted (fst (loop_exit e))"
  by (auto simp: exhausted_def loop_exit_def loop_guard_def pq_qsize_def)

lemma exhausted_reject:
  assumes get: "pq_get (pq e) = (Some (state, depth, cost), q)"
    and e1: "e1 = update_minimum_reached (e\<lparr>pq := q\<rparr>) (Some cost)"
    and ex: "cost_bounds_exceeded e1 (Some cost)"
    and fresh: "mincost_bound e = effective_mincost e"
  shows "exhausted (e1\<lparr>events := Reject depth # events e1\<rparr>)"
proof -
  let ?e' = "e1\<lparr>events := Reject depth # events e1\<rparr>"
  have q: "pqueue (pq ?e') = pqueue q" by (simp add: e1)
  have ab: "\<forall>x \<in> set (pqueue (pq ?e')). cost \<le> fst x"
    using above_rest [OF get q] by (simp add: above_def)
  have em: "effective_mincost ?e' = mincost_bound e"
    using effective_mincost_cong [of ?e' e] fresh by (simp add: e1)
  have "\<exists>b. (mincost_bound e = Some b \<or> upperbound_cost e = Some b) \<and> b < cost"
    using ex by (auto simp: cost_bounds_exceeded_def e1)
  then obtain b where b: "mincost_bound e = Some b \<or> upperbound_cost e = Some b" and lt: "b < cost"
    by blast
  have "effective_mincost ?e' = Some b \<or> upperbound_cost ?e' = Some b"
    using b em by (auto simp: e1)
  moreover have "\<forall>x \<in> set (pqueue (pq ?e')). b < fst x"
    using ab lt by auto
  ultimately show ?thesis unfolding exhausted_def by blast
qed

lemma loop_none_exhausted:
  assumes "optimization_pass_loop e prev = Some r"
    and "snd r = Returned None"
    and "mincost_bound e = effective_mincost e"
  shows "exhausted (fst r)"
  using assms
proof (induction rule: loop_induct)
  case (exit e prev)
  then show ?case by (simp add: exhausted_exit)
next
  case (reject e prev state depth cost q e1)
  show ?case
    using exhausted_reject [OF reject.hyps(2,3,4) reject.prems(2)] by simp
next
  case (goal e prev state depth cost q e1 e4)
  then show ?case by simp
next
  case (raise e prev state depth cost q e1 e4 err)
  then show ?case by simp
next
  case (step e prev state depth cost q e1 e4 succs r)
  have "effective_mincost (put e4 succs (depth + 1)) = effective_mincost e"
    by (rule effective_mincost_cong) (simp_all add: step.hyps(3,5))
  then have "mincost_bound (put e4 succs (depth + 1)) = effective_mincost (put e4 succs (depth + 1))"
    using step.prems(2) by (simp add: step.hyps(3,5))
  with step.prems(1) show ?case by (rule step.IH)
qed

lemma exceeded_if_exhausted:
  assumes ex: "exhausted e" and g: "loop_guard e"
    and get: "pq_get (pq e) = (Some (state, depth, cost), q)"
    and fresh: "mincost_bound e = effective_mincost e"
  shows "cost_bounds_exceeded (update_minimum_reached (e\<lparr>pq := q\<rparr>) (Some cost)) (Some cost)"
proof -
  from ex g obtain b where b: "effective_mincost e = Some b \<or> upperbound_cost e = Some b"
    and lt: "\<forall>x \<in> set (pqueue (pq e)). b < fst x"
    unfolding exhausted_def by blast
  obtain x where "x \<in> set (pqueue (pq e))" and "fst x = cost"
    using pq_get_min(1) [OF get] by blast
  with lt have "b < cost" by auto
  with b fresh show ?thesis by (auto simp: cost_bounds_exceeded_def)
qed

lemma loop_exhausted_none:
  assumes "optimization_pass_loop e prev = Some r"
    and "exhausted e"
    and "mincost_bound e = effective_mincost e"
  shows "snd r = Returned None"
  using assms
proof (induction rule: loop_induct)
  case (exit e prev)
  then show ?case by (simp add: loop_exit_def)
next
  case (reject e prev state depth cost q e1)
  then show ?case by simp
next
  case (goal e prev state depth cost q e1 e4)
  from exceeded_if_exhausted [OF goal.prems(1) goal.hyps(1,2) goal.prems(2)] goal.hyps(3,4)
  show ?case by simp
next
  case (raise e prev state depth cost q e1 e4 err)
  from exceeded_if_exhausted [OF raise.prems(1) raise.hyps(1,2) raise.prems(2)] raise.hyps(3,4)
  show ?case by simp
next
  case (step e prev state depth cost q e1 e4 succs r)
  from exceeded_if_exhausted [OF step.prems(1) step.hyps(1,2) step.prems(2)] step.hyps(3,4)
  show ?case by simp
qed

subsection \<open>Passes of the engine and of the driver\<close>

lemma pass_start_mincost: "mincost_bound (pass_start e) = effective_mincost (pass_start e)"
  by (cases "mincost_bound_func e") (simp_all add: effective_mincost_def pass_start_def)

lemma pass_start_effective: "effective_mincost (pass_start e) = effective_mincost e"
  by (cases "mincost_bound_func e") (simp_all add: effective_mincost_def pass_start_def)

lemma pass_start_props:
  "costed (pass_start e) = costed e"
  "monotone_costs (pass_start e) = monotone_costs e"
  "above b (pass_start e) = above b e"
  "loop_guard (pass_start e) = loop_guard e"
  "exhausted (pass_start e) = exhausted e"
  by (simp_all add: costed_def monotone_costs_def above_def loop_guard_def exhausted_def
      pass_start_effective)

lemma pass_order:
  assumes "optimization_pass e = Some (e', r)" and "costed e" and "monotone_costs e"
  shows "costed e' \<and> monotone_costs e' \<and>
         (\<forall>b. above b e \<longrightarrow> above b e' \<and> (\<forall>s c. r = Returned (Some (s, c)) \<longrightarrow> b \<le> c)) \<and>
         (\<forall>s c. r = Returned (Some (s, c)) \<longrightarrow> above c e')"
proof -
  have run: "optimization_pass_loop (pass_start e) None = Some (e', r)"
    using assms(1) by (simp add: optimization_pass_def)
  show ?thesis
    using loop_order [OF run] assms(2,3) by (simp add: pass_start_props)
qed

lemma pass_none_exhausted:
  assumes "optimization_pass e = Some (e', Returned None)"
  shows "exhausted e'"
proof -
  have run: "optimization_pass_loop (pass_start e) None = Some (e', Returned None)"
    using assms(1) by (simp add: optimization_pass_def)
  show ?thesis
    using loop_none_exhausted [OF run _ pass_start_mincost] by simp
qed

lemma pass_exhausted:
  assumes "optimization_pass e = Some (e', r)" and "exhausted e"
  shows "r = Returned None \<and> exhausted e'"
proof -
  have run: "optimization_pass_loop (pass_start e) None = Some (e', r)"
    using assms(1) by (simp add: optimization_pass_def)
  have "r = Returned None"
    using loop_exhausted_none [OF run _ pass_start_mincost] assms(2) by (simp add: pass_start_props)
  then show ?thesis using pass_none_exhausted assms(1) by blast
qed

lemma driver_pass_cases:
  assumes "CutOptimization_optimization_pass d = Some (d1, r)"
  obtains
    (raised) eng err where "optimization_pass (search_engine d) = Some (eng, Raised err)"
      "d1 = d\<lparr>search_engine := eng\<rparr>" "r = Raised err"
  | (passed) eng res where "optimization_pass (search_engine d) = Some (eng, Returned res)"
      "res \<noteq> None \<or> goal_state_returned d"
      "d1 = d\<lparr>search_engine := eng, goal_state_returned := True\<rparr>" "r = Returned res"
  | (fallback) eng g where "optimization_pass (search_engine d) = Some (eng, Returned None)"
      "\<not> goal_state_returned d" "greedy_goal_state d = Some g"
      "d1 = d\<lparr>search_engine := eng, goal_state_returned := True\<rparr>"
      "r = Returned (Some (g, sf_cost_func (search_funcs d) g))"
  | (crashed) eng where "optimization_pass (search_engine d) = Some (eng, Returned None)"
      "\<not> goal_state_returned d" "greedy_goal_state d = None"
      "d1 = d\<lparr>search_engine := eng\<rparr>" "r = Raised AttributeError"
  using assms
  by (auto simp: CutOptimization_optimization_pass_def Let_def cost_of_optional_def
      split: option.splits outcome.splits if_splits prod.splits)


lemma returned_costs_skip:
  assumes "\<not> (\<exists>s c. r = Returned (Some (s, c)))"
  shows "returned_costs (r # rs) = returned_costs rs"
proof (cases r)
  case (Returned x)
  then show ?thesis using assms by (cases x) auto
next
  case (Raised err)
  then show ?thesis by simp
qed

lemma driver_passes_Suc:
  assumes "driver_passes (Suc n) d = Some (d', rs)"
  obtains d1 r rs' where "CutOptimization_optimization_pass d = Some (d1, r)"
    and "driver_passes n d1 = Some (d', rs')" and "rs = r # rs'"
  using assms by (auto split: option.splits prod.splits)

lemma driver_exhausted_returned:
  assumes "driver_passes n d = Some (d', rs)"
    and "exhausted (search_engine d)" and "goal_state_returned d"
  shows "returned_costs rs = []"
  using assms
proof (induction n arbitrary: d rs)
  case 0
  then show ?case by simp
next
  case (Suc n)
  from Suc.prems(1) obtain d1 r rs' where p: "CutOptimization_optimization_pass d = Some (d1, r)"
    and rest: "driver_passes n d1 = Some (d', rs')" and rs: "rs = r # rs'"
    by (rule driver_passes_Suc)
  from p show ?case
  proof (cases rule: driver_pass_cases)
    case (raised eng err)
    with pass_exhausted [OF raised(1) Suc.prems(2)] show ?thesis by simp
  next
    case (passed eng res)
    from pass_exhausted [OF passed(1) Suc.prems(2)] have n: "res = None" and x: "exhausted eng"
      by simp_all
    have "returned_costs rs' = []"
      using Suc.IH [OF rest] x passed(3) by simp
    then show ?thesis using rs passed(4) n by simp
  next
    case (fallback eng g)
    with Suc.prems(3) show ?thesis by simp
  next
    case (crashed eng)
    with Suc.prems(3) show ?thesis by simp
  qed
qed

lemma driver_exhausted:
  assumes "driver_passes n d = Some (d', rs)" and "exhausted (search_engine d)"
  shows "length (returned_costs rs) \<le> 1"
  using assms
proof (induction n arbitrary: d rs)
  case 0
  then show ?case by simp
next
  case (Suc n)
  from Suc.prems(1) obtain d1 r rs' where p: "CutOptimization_optimization_pass d = Some (d1, r)"
    and rest: "driver_passes n d1 = Some (d', rs')" and rs: "rs = r # rs'"
    by (rule driver_passes_Suc)
  from p show ?case
  proof (cases rule: driver_pass_cases)
    case (raised eng err)
    with pass_exhausted [OF raised(1) Suc.prems(2)] show ?thesis by simp
  next
    case (passed eng res)
    from pass_exhausted [OF passed(1) Suc.prems(2)] have n: "res = None" and x: "exhausted eng"
      by simp_all
    have "length (returned_costs rs') \<le> 1"
      using Suc.IH [OF rest] x passed(3) by simp
    then show ?thesis using rs passed(4) n by simp
  next
    case (fallback eng g)
    from pass_exhausted [OF fallback(1) Suc.prems(2)] have x: "exhausted eng" by simp
    have "returned_costs rs' = []"
      using driver_exhausted_returned [OF rest] x fallback(4) by simp
    then show ?thesis using rs fallback(5) by simp
  next
    case (crashed eng)
    from pass_exhausted [OF crashed(1) Suc.prems(2)] have x: "exhausted eng" by simp
    have "length (returned_costs rs') \<le> 1"
      using Suc.IH [OF rest] x crashed(4) by simp
    then show ?thesis using rs crashed(5) by simp
  qed
qed

lemma driver_sorted_returned:
  assumes "driver_passes n d = Some (d', rs)" and "goal_state_returned d"
    and "costed (search_engine d)" and "monotone_costs (search_engine d)"
  shows "sorted (returned_costs rs) \<and>
         (\<forall>b. above b (search_engine d) \<longrightarrow> (\<forall>c \<in> set (returned_costs rs). b \<le> c))"
  using assms
proof (induction n arbitrary: d rs)
  case 0
  then show ?case by simp
next
  case (Suc n)
  from Suc.prems(1) obtain d1 r rs' where p: "CutOptimization_optimization_pass d = Some (d1, r)"
    and rest: "driver_passes n d1 = Some (d', rs')" and rs: "rs = r # rs'"
    by (rule driver_passes_Suc)
  have step: "sorted (returned_costs (r # rs')) \<and>
         (\<forall>b. above b (search_engine d) \<longrightarrow> (\<forall>c \<in> set (returned_costs (r # rs')). b \<le> c))"
    if run: "optimization_pass (search_engine d) = Some (eng, r)"
      and d1: "search_engine d1 = eng" "goal_state_returned d1" for eng
  proof -
    note o = pass_order [OF run Suc.prems(3,4)]
    have IH: "sorted (returned_costs rs') \<and>
         (\<forall>b. above b eng \<longrightarrow> (\<forall>c \<in> set (returned_costs rs'). b \<le> c))"
      using Suc.IH [OF rest] d1 o by simp
    show ?thesis
    proof (cases "\<exists>s c. r = Returned (Some (s, c))")
      case True
      then obtain s c where r: "r = Returned (Some (s, c))" by blast
      have ac: "above c eng" using o r by simp
      have ge: "\<forall>c' \<in> set (returned_costs rs'). c \<le> c'" using IH ac by blast
      have "sorted (returned_costs (r # rs'))" using IH ge r by simp
      moreover have "\<forall>c' \<in> set (returned_costs (r # rs')). b \<le> c'"
        if "above b (search_engine d)" for b
      proof -
        have "b \<le> c" using o that r by simp
        then show ?thesis using ge r by auto
      qed
      ultimately show ?thesis by blast
    next
      case False
      then have eq: "returned_costs (r # rs') = returned_costs rs'"
        by (rule returned_costs_skip)
      have "\<forall>c' \<in> set (returned_costs rs'). b \<le> c'" if "above b (search_engine d)" for b
      proof -
        have "above b eng" using o that by simp
        then show ?thesis using IH by blast
      qed
      then show ?thesis using IH eq by simp
    qed
  qed
  from p show ?case
  proof (cases rule: driver_pass_cases)
    case (raised eng err)
    show ?thesis using step [of eng] raised Suc.prems(2) rs by simp
  next
    case (passed eng res)
    show ?thesis using step [of eng] passed rs by simp
  next
    case (fallback eng g)
    with Suc.prems(2) show ?thesis by simp
  next
    case (crashed eng)
    with Suc.prems(2) show ?thesis by simp
  qed
qed


lemma sorted_short: "length xs \<le> 1 \<Longrightarrow> sorted xs"
  by (cases xs) auto

lemma driver_sorted:
  assumes "driver_passes n d = Some (d', rs)"
    and "costed (search_engine d)" and "monotone_costs (search_engine d)"
  shows "sorted (returned_costs rs)"
  using assms
proof (induction n arbitrary: d rs)
  case 0
  then show ?case by simp
next
  case (Suc n)
  show ?case
  proof (cases "goal_state_returned d")
    case True
    then show ?thesis using driver_sorted_returned [OF Suc.prems(1) _ Suc.prems(2,3)] by simp
  next
    case False
    from Suc.prems(1) obtain d1 r rs' where p: "CutOptimization_optimization_pass d = Some (d1, r)"
      and rest: "driver_passes n d1 = Some (d', rs')" and rs: "rs = r # rs'"
      by (rule driver_passes_Suc)
    from p show ?thesis
    proof (cases rule: driver_pass_cases)
      case (raised eng err)
      note o = pass_order [OF raised(1) Suc.prems(2,3)]
      have "sorted (returned_costs rs')"
        using Suc.IH [OF rest] o raised(2) by simp
      then show ?thesis using rs raised(3) by simp
    next
      case (passed eng res)
      with False obtain s c where res: "res = Some (s, c)" by (cases res) auto
      note o = pass_order [OF passed(1) Suc.prems(2,3)]
      have ac: "above c eng" using o passed(4) res by simp
      have "sorted (returned_costs rs') \<and>
         (\<forall>b. above b (search_engine d1) \<longrightarrow> (\<forall>c \<in> set (returned_costs rs'). b \<le> c))"
        using driver_sorted_returned [OF rest] o passed(3) by simp
      then have "sorted (returned_costs rs')" "\<forall>c' \<in> set (returned_costs rs'). c \<le> c'"
        using ac passed(3) by auto
      then show ?thesis using rs passed(4) res by simp
    next
      case (fallback eng g)
      have x: "exhausted eng" by (rule pass_none_exhausted [OF fallback(1)])
      have "returned_costs rs' = []"
        using driver_exhausted_returned [OF rest] x fallback(4) by simp
      then show ?thesis using rs fallback(5) by simp
    next
      case (crashed eng)
      have x: "exhausted eng" by (rule pass_none_exhausted [OF crashed(1)])
      have "length (returned_costs rs') \<le> 1"
        using driver_exhausted [OF rest] x crashed(4) by simp
      then show ?thesis using rs crashed(5) by (simp add: sorted_short)
    qed
  qed
qed

lemma pass_statics:
  assumes "optimization_pass e = Some (e', r)"
  shows "cost_func e' = cost_func e \<and> next_state_func e' = next_state_func e"
proof -
  have run: "optimization_pass_loop (pass_start e) None = Some (e', r)"
    using assms(1) by (simp add: optimization_pass_def)
  show ?thesis using loop_statics [OF run] by simp
qed

lemma costed_initialize: "costed (initialize e l)"
  unfolding initialize_def
  by (rule costed_put) (simp add: costed_def pq_clear_def)

lemma lifetime_costed:
  assumes "in_lifetime e" and "monotone_costs e"
  shows "costed e"
  using assms
proof (induction rule: in_lifetime.induct)
  case (l_initialize e initial_state_list)
  show ?case by (rule costed_initialize)
next
  case (l_pass e e' r)
  have m: "monotone_costs e"
    by (rule monotone_costs_cong [OF l_pass.prems]) (simp_all add: pass_statics [OF l_pass.hyps(2)])
  show ?case using pass_order [OF l_pass.hyps(2) l_pass.IH [OF m] m] by simp
next
  case (l_bound e b)
  have m: "monotone_costs e" by (rule monotone_costs_cong [OF l_bound.prems]) simp_all
  show ?case by (rule costed_subset [OF l_bound.IH [OF m]]) simp_all
next
  case (l_goal_bound e g)
  have m: "monotone_costs e" by (rule monotone_costs_cong [OF l_goal_bound.prems]) simp_all
  show ?case by (rule costed_subset [OF l_goal_bound.IH [OF m]]) simp_all
qed

lemma pair_driver_engine:
  "search_engine pair_driver =
     update_upperbound_goal_state
       (initialize (BestFirstSearch_init (\<lambda>s k. 0) 0 (tie_settings (Some 0)) pair_funcs False) [0]) 2"
  by (simp add: pair_driver_def CutOptimization_init_def Let_def)

lemma greedy_result_returned:
  assumes "optimization_pass (search_engine d) = Some (eng, Returned None)"
    and "greedy_goal_state d = Some g"
  shows "CutOptimization_optimization_pass d =
           Some (d\<lparr>search_engine := eng, goal_state_returned := True\<rparr>,
                 Returned (if goal_state_returned d then None
                           else Some (g, sf_cost_func (search_funcs d) g)))"
  using assms
  by (simp add: CutOptimization_optimization_pass_def Let_def cost_of_optional_def)

lemma greedy_none_raises:
  assumes "optimization_pass (search_engine d) = Some (eng, Returned None)"
    and "greedy_goal_state d = None" and "\<not> goal_state_returned d"
  shows "CutOptimization_optimization_pass d = Some (d\<lparr>search_engine := eng\<rparr>, Raised AttributeError)"
  using assms
  by (simp add: CutOptimization_optimization_pass_def Let_def cost_of_optional_def)

section \<open>Claims about the search engine\<close>




text \<open>
  C4 (as amended).  At every moment of an engine's life since \<open>initialize\<close>,
  \<open>num_backjumps\<close> is the number of pops that passed the cost bounds and whose depth is
  at most the depth of the pop before them in the same call of \<open>optimization_pass\<close>:
  \<open>prev_depth\<close> is a local variable, \<open>None\<close> at the start of each call, so the first pop of
  a call is never counted, and a pop rejected by the cost bounds ends its call uncounted.
\<close>

theorem backjumps_counted_within_passes:
  assumes "in_lifetime e"
  shows "num_backjumps e = same_pass_backjumps (events e)"
  using assms
proof (induction rule: in_lifetime.induct)
  case (l_initialize e initial_state_list)
  show ?case by (simp add: initialize_def)
next
  case (l_pass e e' r)
  then show ?case by (simp add: pass_backjumps)
next
  case (l_bound e b)
  then show ?case by simp
next
  case (l_goal_bound e g)
  then show ?case by simp
qed

theorem backjumps_counted_within_passes_witness:
  "in_lifetime (budget_engine 1) \<and>
   (case optimization_pass (budget_engine 1) of
      None \<Rightarrow> False
    | Some (e', r) \<Rightarrow> num_backjumps e' = same_pass_backjumps (events e') \<and> num_backjumps e' = 1)"
proof -
  let ?e = "budget_engine 1"
  have il: "in_lifetime ?e"
    unfolding budget_engine_def by (rule l_bound [OF l_initialize])
  have "map_option (num_backjumps \<circ> fst) (optimization_pass ?e) = Some 1"
    by code_simp
  then obtain e' r where p: "optimization_pass ?e = Some (e', r)" and n: "num_backjumps e' = 1"
    by (cases "optimization_pass ?e") auto
  show ?thesis
    using backjumps_counted_within_passes [OF l_pass [OF il p]] il p n by simp
qed

text \<open>
  C4 as the claim states it fails.  Two goal states are pushed at depth 0 and two calls
  of \<open>optimization_pass\<close> pop one each: the second pop's depth equals the first's, so
  one pop of the engine's life has a depth at most that of the pop before it, but
  \<open>num_backjumps\<close> is 0.
\<close>

theorem backjumps_across_passes_counterexample:
  "map_option (backjump_report \<circ> fst) (passes 2 (tie_engine 0 (Some 0))) = Some (0, 1)"
  by code_simp

text \<open>
  C5 (as amended).  When a call of \<open>optimization_pass\<close> comes back to its loop guard,
  after any number \<open>n\<close> of rounds, with \<open>num_backjumps\<close> having reached a finite
  \<open>max_backjumps\<close>, the call returns the empty result.  On that exit \<open>min_reached\<close> is set
  if the queue is empty; otherwise it is as the rounds left it, which is \<open>True\<close> exactly
  when it was \<open>True\<close> before the call or one of the rounds popped a cost that reached the
  upper bound (\<open>update_minimum_reached\<close>).
\<close>

theorem budget_exit:
  assumes "iterate n (pass_start e) None = Some (ex, prev)"
    and "max_backjumps e = Some m"
    and "m \<le> num_backjumps ex"
  shows "optimization_pass e =
           Some ((if pq_qsize (pq ex) = 0 then ex\<lparr>min_reached := True\<rparr> else ex), Returned None) \<and>
         (min_reached ex \<longleftrightarrow>
            min_reached e \<or>
            (\<exists>k<n. \<exists>ek pk. iterate k (pass_start e) None = Some (ek, pk) \<and> bound_reached_at ek))"
proof -
  have "max_backjumps ex = Some m"
    using iterate_max_backjumps [OF assms(1)] assms(2) by simp
  with assms(3) have ng: "\<not> loop_guard ex" by (simp add: loop_guard_def)
  have "optimization_pass e = optimization_pass_loop ex prev"
    unfolding optimization_pass_def by (rule iterate_loop [OF assms(1)])
  also have "\<dots> = Some (loop_exit ex)"
    using ng by (subst optimization_pass_loop.simps) simp
  finally have a: "optimization_pass e =
      Some ((if pq_qsize (pq ex) = 0 then ex\<lparr>min_reached := True\<rparr> else ex), Returned None)"
    by (simp add: loop_exit_def)
  have b: "min_reached ex \<longleftrightarrow>
            min_reached e \<or>
            (\<exists>k<n. \<exists>ek pk. iterate k (pass_start e) None = Some (ek, pk) \<and> bound_reached_at ek)"
    using iterate_min_reached [OF assms(1)] by simp
  from a b show ?thesis by simp
qed

text \<open>
  The engine \<open>budget_engine 1\<close>: three rounds pop the states 0, 1 and 2; the third pop is
  the backjump that exhausts the budget of 1, and its cost reaches the upper bound.  The
  call returns the empty result with one state queued and \<open>min_reached\<close> set by the third
  round, not by the exit.
\<close>

theorem budget_exit_witness:
  "(case iterate 3 (pass_start (budget_engine 1)) None of
      None \<Rightarrow> False
    | Some (ex, prev) \<Rightarrow>
        max_backjumps (budget_engine 1) = Some 1 \<and>
        1 \<le> num_backjumps ex \<and>
        pq_qsize (pq ex) = 1 \<and>
        optimization_pass (budget_engine 1) = Some (ex, Returned None) \<and>
        min_reached ex \<and>
        \<not> min_reached (budget_engine 1) \<and>
        (\<exists>k<3. \<exists>ek pk. iterate k (pass_start (budget_engine 1)) None = Some (ek, pk) \<and>
                         bound_reached_at ek))"
proof -
  let ?e = "budget_engine 1"
  have "map_option (\<lambda>x. (num_backjumps (fst x), pq_qsize (pq (fst x)), min_reached (fst x)))
          (iterate 3 (pass_start ?e) None) = Some (1, 1, True)"
    by code_simp
  then obtain ex prev where it: "iterate 3 (pass_start ?e) None = Some (ex, prev)"
    and v: "num_backjumps ex = 1" "pq_qsize (pq ex) = 1" "min_reached ex"
    by (cases "iterate 3 (pass_start ?e) None") auto
  have m: "max_backjumps ?e = Some 1" by code_simp
  have f: "\<not> min_reached ?e" by code_simp
  have b: "1 \<le> num_backjumps ex" using v by simp
  show ?thesis
    using budget_exit [OF it m b] it m v f by simp
qed

text \<open>
  C5 as the claim states it fails.  With \<open>max_backjumps = 1\<close> and the upper bound 5, the
  call pops state 0, then state 1, then state 2 at the depth of state 1: that is the
  backjump that exhausts the budget.  The cost of state 2 equals the upper bound, so
  \<open>update_minimum_reached\<close> has set \<open>min_reached\<close>.  The call returns the empty result
  with one state still queued, and \<open>minimum_reached\<close> reports \<open>True\<close>, having been
  \<open>False\<close> before the call.
\<close>

theorem budget_exit_min_reached_counterexample:
  "minimum_reached (budget_engine 1) = False \<and>
   max_backjumps (budget_engine 1) = Some 1 \<and>
   map_option budget_report (optimization_pass (budget_engine 1)) = Some (Returned None, 1, 1, True)"
  by code_simp




text \<open>
  Nor do two runs on one engine agree, even with an integer seed: \<open>initialize\<close> clears the
  queue but does not reseed the generator, which goes on from where the first run left it.
  On \<open>flip_engine\<close>, whose generator yields 0, 1, 3, 2, ..., the first run returns state 0,
  then state 1; the second run, over the same initial states, returns state 1, then state 0.
\<close>

lemma reinitialised_run_differs:
  "map_option snd (passes 2 (initialize flip_engine [0, 1])) =
     Some [Returned (Some (0, 0)), Returned (Some (1, 0))] \<and>
   map_option snd
     (Option.bind (passes 2 (initialize flip_engine [0, 1]))
        (\<lambda>x. passes 2 (initialize (fst x) [0, 1]))) =
     Some [Returned (Some (1, 0)), Returned (Some (0, 0))]"
  by code_simp

section \<open>Claims about the driver\<close>

text \<open>
  C2.  Take a driver whose engine is in its life since \<open>initialize\<close> and whose search
  space gives no successor a cost below its parent's.  Over any number of successive calls
  of the driver's \<open>optimization_pass\<close>, the costs returned (with the goals of the engine,
  or with the greedy result on the first call that finds the engine empty-handed) are in
  non-decreasing order.  The order is that of the cost type; on pairs (gamma, width) it is
  the lexicographic one, as for Python tuples.
\<close>

theorem driver_costs_nondecreasing:
  assumes "in_lifetime (search_engine d)"
    and "monotone_costs (search_engine d)"
    and "driver_passes n d = Some (d', rs)"
  shows "sorted (returned_costs rs)"
  using driver_sorted [OF assms(3) lifetime_costed [OF assms(1,2)] assms(2)] .

text \<open>
  On the search space of \<open>pair_driver\<close> three calls return the costs (1, 2) and (3, 1),
  then nothing: non-decreasing lexicographically, though not in the second component.
\<close>

theorem driver_costs_nondecreasing_witness:
  "in_lifetime (search_engine pair_driver) \<and> monotone_costs (search_engine pair_driver) \<and>
   map_option (returned_costs \<circ> snd) (driver_passes 3 pair_driver) = Some [(1, 2), (3, 1)] \<and>
   sorted [(1, 2), (3, 1 :: nat) :: nat \<times> nat]"
proof -
  have il: "in_lifetime (search_engine pair_driver)"
    unfolding pair_driver_engine by (rule l_goal_bound [OF l_initialize])
  have fs: "cost_func (search_engine pair_driver) = sf_cost_func pair_funcs"
    "next_state_func (search_engine pair_driver) = sf_next_state_func pair_funcs"
    by (simp_all add: pair_driver_engine initialize_def BestFirstSearch_init_def)
  have mo: "monotone_costs (search_engine pair_driver)"
    unfolding monotone_costs_def fs by (auto simp: pair_funcs_def less_eq_prod_def)
  have ev: "map_option (returned_costs \<circ> snd) (driver_passes 3 pair_driver) = Some [(1, 2), (3, 1)]"
    by code_simp
  then obtain d' rs where p: "driver_passes 3 pair_driver = Some (d', rs)"
    and rs: "returned_costs rs = [(1, 2), (3, 1)]"
    by (cases "driver_passes 3 pair_driver") auto
  show ?thesis
    using driver_costs_nondecreasing [OF il mo p] il mo ev rs by simp
qed

text \<open>
  C8.  The claim is what the code is meant to do, and the code does it when the greedy
  pre-pass found a goal (\<open>greedy_result_returned\<close>).  When the greedy pre-pass found
  nothing, \<open>greedy_goal_state\<close> is \<open>None\<close> and the first call that gets no goal from the
  engine applies the cost function to \<open>None\<close>, which raises \<open>AttributeError\<close> before
  \<open>goal_state_returned\<close> is set (\<open>greedy_none_raises\<close>); so does every later call.
  Evaluated here on the one-state search space of \<open>dead_end_driver\<close>.
\<close>

theorem dead_end_driver_raises:
  "greedy_goal_state dead_end_driver = None \<and>
   map_option snd (driver_passes 2 dead_end_driver) = Some [Raised AttributeError, Raised AttributeError]"
  by code_simp

section \<open>Claims about the cut optimizer's search space\<close>






end
